theory Spec2Isabelle
  imports Main "HOL-Library.Word"
begin

unbundle bit_operations_syntax

section \<open>Data model of dict.h\<close>

text \<open>
  The embedding follows \<^verbatim>\<open>src/src/dict.h\<close> and the first (current) copy of
  \<^verbatim>\<open>src/src/dict.c\<close> on an LP64 target: \<^verbatim>\<open>unsigned long\<close> and
  \<^verbatim>\<open>long long\<close> are 64 bits wide, \<^verbatim>\<open>unsigned int\<close> is 32 bits wide.
  C identifiers that start with an underscore lose it (\<^verbatim>\<open>_dictRehashStep\<close> is
  \<open>dictRehashStep\<close>); struct fields carry a prefix naming their struct, because
  record fields are global constants (\<^verbatim>\<open>ht->size\<close> is \<open>ht_size\<close>,
  \<^verbatim>\<open>d->rehashidx\<close> is \<open>d_rehashidx\<close>, \<^verbatim>\<open>he->next\<close> is \<open>e_next\<close>,
  \<^verbatim>\<open>iter->index\<close> is \<open>it_index\<close>).

  A \<^verbatim>\<open>dictEntry *\<close> is an optional address, \<open>None\<close> being \<^verbatim>\<open>NULL\<close>; the
  entries live in an explicit store \<open>heap\<close>. A bucket array is kept with the address
  \<^verbatim>\<open>zcalloc\<close> returned for it, because \<^verbatim>\<open>dictFingerprint\<close> reads that address.
  The value slot of an entry is optional: \<open>None\<close> is the indeterminate content of a
  slot that \<^verbatim>\<open>zmalloc\<close> handed out and nobody has written yet.
\<close>

type_synonym ulong = "64 word"
type_synonym uint = "32 word"
type_synonym addr = nat
type_synonym entry_ptr = "addr option"

record ('k, 'v) dictEntry =
  e_key :: 'k
  e_val :: "'v option"
  e_next :: entry_ptr

text \<open>
  \<^verbatim>\<open>dictType\<close>: the hash function is mandatory, the other callbacks are optional
  function pointers. The two destructors only have an effect outside the dict, so the
  model records whether they are installed and logs every call.
\<close>

record ('k, 'v) dictType =
  hashFunction :: "'k \<Rightarrow> uint"
  keyDup :: "('k \<Rightarrow> 'k) option"
  valDup :: "('v \<Rightarrow> 'v) option"
  keyCompare :: "('k \<Rightarrow> 'k \<Rightarrow> bool) option"
  keyDestructor :: bool
  valDestructor :: bool

record dictht =
  ht_table :: "(addr \<times> entry_ptr list) option"
  ht_size :: ulong
  ht_sizemask :: ulong
  ht_used :: ulong

record ('k, 'v) dict =
  d_type :: "('k, 'v) dictType"
  d_ht0 :: dictht
  d_ht1 :: dictht
  d_rehashidx :: int
  d_iterators :: int

text \<open>
  The world a dict operation runs in: the dict itself, the store of its entries, the
  process-wide flag \<^verbatim>\<open>dict_can_resize\<close>, the allocator and the log of destructor
  calls. The allocator is the sequence of addresses that successive calls of
  \<^verbatim>\<open>zmalloc\<close> and \<^verbatim>\<open>zcalloc\<close> return (running out of memory aborts the process
  and is not part of the model).
\<close>

record ('k, 'v) world = "('k, 'v) dict" +
  heap :: "addr \<rightharpoonup> ('k, 'v) dictEntry"
  dict_can_resize :: bool
  alloc_addr :: "nat \<Rightarrow> addr"
  alloc_count :: nat
  val_destroyed :: "'v option list"
  key_destroyed :: "'k list"

text \<open>
  What can stop a C function before it returns: a null or dangling pointer is
  dereferenced, an array is read or written outside its bounds, an indeterminate value
  is read, or \<^verbatim>\<open>redis_assert\<close> fails and calls \<^verbatim>\<open>exit(1)\<close>. A function that may also
  loop forever returns an \<open>option\<close> around this, \<open>None\<close> meaning that it never
  returns.
\<close>

datatype fault = NullDeref | DanglingPtr | OutOfBounds | Indeterminate | AssertFailed

definition DICT_OK :: int where "DICT_OK = 0"
definition DICT_ERR :: int where "DICT_ERR = 1"
definition DICT_HT_INITIAL_SIZE :: ulong where "DICT_HT_INITIAL_SIZE = 4"
definition UINT32_MAX :: ulong where "UINT32_MAX = 0xFFFFFFFF"
definition dict_force_resize_ratio :: ulong where "dict_force_resize_ratio = 5"

definition bnd :: "(fault + 'a) option \<Rightarrow> ('a \<Rightarrow> (fault + 'b) option) \<Rightarrow> (fault + 'b) option" where
  "bnd m f = (case m of None \<Rightarrow> None | Some (Inl e) \<Rightarrow> Some (Inl e) | Some (Inr x) \<Rightarrow> f x)"

definition ret :: "'a \<Rightarrow> (fault + 'a) option" where
  "ret x = Some (Inr x)"

definition fail :: "fault \<Rightarrow> (fault + 'a) option" where
  "fail e = Some (Inl e)"

definition dictIsRehashing :: "('k, 'v, 'z) dict_scheme \<Rightarrow> bool" where
  "dictIsRehashing d = (d_rehashidx d \<noteq> -1)"

definition dictSize :: "('k, 'v, 'z) dict_scheme \<Rightarrow> ulong" where
  "dictSize d = ht_used (d_ht0 d) + ht_used (d_ht1 d)"

definition dictReset :: dictht where
  "dictReset = \<lparr>ht_table = None, ht_size = 0, ht_sizemask = 0, ht_used = 0\<rparr>"

definition zmalloc :: "('k, 'v) world \<Rightarrow> addr \<times> ('k, 'v) world" where
  "zmalloc s = (alloc_addr s (alloc_count s), s\<lparr>alloc_count := alloc_count s + 1\<rparr>)"

section \<open>Sizing and expansion\<close>

definition dictNextPower :: "ulong \<Rightarrow> ulong" where
  "dictNextPower size0 =
     (if size0 < DICT_HT_INITIAL_SIZE then DICT_HT_INITIAL_SIZE
      else if size0 > UINT32_MAX then UINT32_MAX
      else
        let s0 = size0 - 1;
            s1 = s0 OR drop_bit 1 s0;
            s2 = s1 OR drop_bit 2 s1;
            s3 = s2 OR drop_bit 4 s2;
            s4 = s3 OR drop_bit 8 s3;
            s5 = s4 OR drop_bit 16 s4
        in s5 + 1)"

definition dictExpand :: "('k, 'v) world \<Rightarrow> ulong \<Rightarrow> int \<times> ('k, 'v) world" where
  "dictExpand s size0 =
     (let realsize = dictNextPower size0 in
      if dictIsRehashing s \<or> ht_used (d_ht0 s) > size0 then (DICT_ERR, s)
      else
        let (a, s1) = zmalloc s;
            n = \<lparr>ht_table = Some (a, replicate (unat realsize) None),
                 ht_size = realsize, ht_sizemask = realsize - 1, ht_used = 0\<rparr>
        in if ht_table (d_ht0 s1) = None then (DICT_OK, s1\<lparr>d_ht0 := n\<rparr>)
           else (DICT_OK, s1\<lparr>d_ht1 := n, d_rehashidx := 0\<rparr>))"

definition dictExpandIfNeeded :: "('k, 'v) world \<Rightarrow> int \<times> ('k, 'v) world" where
  "dictExpandIfNeeded s =
     (if dictIsRehashing s then (DICT_OK, s)
      else if ht_size (d_ht0 s) = 0 then dictExpand s DICT_HT_INITIAL_SIZE
      else if (ht_used (d_ht0 s) \<ge> ht_size (d_ht0 s) \<and> dict_can_resize s)
              \<or> ht_used (d_ht0 s) div ht_size (d_ht0 s) > dict_force_resize_ratio
           then dictExpand s (2 * ht_used (d_ht0 s))
      else (DICT_OK, s))"

definition dictResize :: "('k, 'v) world \<Rightarrow> int \<times> ('k, 'v) world" where
  "dictResize s =
     (if \<not> dict_can_resize s \<or> dictIsRehashing s then (DICT_ERR, s)
      else
        let minimal = sint (ucast (ht_used (d_ht0 s)) :: uint);
            minimal = (if minimal < 4 then 4 else minimal)
        in dictExpand s (word_of_int minimal))"

definition dictCreate :: "('k, 'v) dictType \<Rightarrow> (nat \<Rightarrow> addr) \<Rightarrow> ('k, 'v) world" where
  "dictCreate ty al =
     \<lparr>d_type = ty, d_ht0 = dictReset, d_ht1 = dictReset, d_rehashidx = -1, d_iterators = 0,
      heap = Map.empty, dict_can_resize = True, alloc_addr = al, alloc_count = 1,
      val_destroyed = [], key_destroyed = []\<rparr>"

section \<open>Access to the two tables\<close>

text \<open>
  \<^verbatim>\<open>d->ht[t]\<close> for \<open>t\<close> 0 or 1, and reads and writes of one slot of a bucket
  array. A read or write through a \<^verbatim>\<open>NULL\<close> table pointer or past the end of the
  array is a fault.
\<close>

definition ht :: "('k, 'v, 'z) dict_scheme \<Rightarrow> nat \<Rightarrow> dictht" where
  "ht d t = (if t = 0 then d_ht0 d else d_ht1 d)"

definition ht_upd :: "nat \<Rightarrow> dictht \<Rightarrow> ('k, 'v) world \<Rightarrow> ('k, 'v) world" where
  "ht_upd t h s = (if t = 0 then s\<lparr>d_ht0 := h\<rparr> else s\<lparr>d_ht1 := h\<rparr>)"

definition table_get :: "dictht \<Rightarrow> nat \<Rightarrow> fault + entry_ptr" where
  "table_get h i =
     (case ht_table h of
        None \<Rightarrow> Inl NullDeref
      | Some (a, bs) \<Rightarrow> if i < length bs then Inr (bs ! i) else Inl OutOfBounds)"

definition table_set :: "dictht \<Rightarrow> nat \<Rightarrow> entry_ptr \<Rightarrow> fault + dictht" where
  "table_set h i p =
     (case ht_table h of
        None \<Rightarrow> Inl NullDeref
      | Some (a, bs) \<Rightarrow>
          if i < length bs then Inr (h\<lparr>ht_table := Some (a, bs[i := p])\<rparr>) else Inl OutOfBounds)"

definition dictHashKey :: "('k, 'v, 'z) dict_scheme \<Rightarrow> 'k \<Rightarrow> uint" where
  "dictHashKey d k = hashFunction (d_type d) k"

definition dictCompareKeys :: "('k, 'v, 'z) dict_scheme \<Rightarrow> 'k \<Rightarrow> 'k \<Rightarrow> bool" where
  "dictCompareKeys d k1 k2 =
     (case keyCompare (d_type d) of Some f \<Rightarrow> f k1 k2 | None \<Rightarrow> k1 = k2)"

text \<open>
  \<^verbatim>\<open>h & d->ht[table].sizemask\<close>: the 32-bit hash is widened, masked with the 64-bit
  mask, and the result is stored in an \<^verbatim>\<open>unsigned int\<close>.
\<close>

definition bucket_index :: "uint \<Rightarrow> dictht \<Rightarrow> uint" where
  "bucket_index h t = ucast ((ucast h :: ulong) AND ht_sizemask t)"

section \<open>Incremental rehashing\<close>

text \<open>
  \<^verbatim>\<open>while (d->ht[0].table[d->rehashidx] == NULL) d->rehashidx++;\<close> The result is the
  first index at or after \<open>i\<close> whose bucket is not empty; running off the end of the
  array is \<open>None\<close>, a read out of bounds.
\<close>

function dictRehash_skip :: "entry_ptr list \<Rightarrow> nat \<Rightarrow> nat option" where
  "dictRehash_skip bs i =
     (if i < length bs then (if bs ! i = None then dictRehash_skip bs (i + 1) else Some i)
      else None)"
  by pat_completeness auto
termination
  by (relation "measure (\<lambda>(bs, i). length bs - i)") auto

declare dictRehash_skip.simps [simp del]

text \<open>
  The inner \<^verbatim>\<open>while (de)\<close> of \<^verbatim>\<open>dictRehash\<close>: every entry of the chain is
  head-linked into its bucket of table 1. On a cyclic chain the loop need not end.
\<close>

partial_function (option) dictRehash_move ::
  "('k, 'v) world \<Rightarrow> entry_ptr \<Rightarrow> (fault + ('k, 'v) world) option" where
  "dictRehash_move s de =
     (case de of
        None \<Rightarrow> Some (Inr s)
      | Some a \<Rightarrow>
          (case heap s a of
             None \<Rightarrow> Some (Inl DanglingPtr)
           | Some e \<Rightarrow>
               let nextde = e_next e;
                   h = bucket_index (dictHashKey s (e_key e)) (d_ht1 s)
               in (case table_get (d_ht1 s) (unat h) of
                     Inl f \<Rightarrow> Some (Inl f)
                   | Inr hd1 \<Rightarrow>
                       (case table_set (d_ht1 s) (unat h) (Some a) of
                          Inl f \<Rightarrow> Some (Inl f)
                        | Inr t1 \<Rightarrow>
                            dictRehash_move
                              (s\<lparr>heap := (heap s)(a \<mapsto> e\<lparr>e_next := hd1\<rparr>),
                                 d_ht1 := t1\<lparr>ht_used := ht_used t1 + 1\<rparr>,
                                 d_ht0 := (d_ht0 s)\<lparr>ht_used := ht_used (d_ht0 s) - 1\<rparr>\<rparr>)
                              nextde))))"

text \<open>
  The body of \<^verbatim>\<open>while (n--)\<close>. The function has no \<^verbatim>\<open>return\<close> after the loop:
  when the loop ends because \<open>n\<close> reached 0, control falls off the end of a non-void
  function and the caller gets no defined value, which the model writes as the return
  value \<open>None\<close>. \<open>Some 0\<close> is \<^verbatim>\<open>return 0\<close>.
\<close>

partial_function (option) dictRehash_loop ::
  "('k, 'v) world \<Rightarrow> int \<Rightarrow> (fault + int option \<times> ('k, 'v) world) option" where
  "dictRehash_loop s n =
     (if n = 0 then Some (Inr (None, s))
      else if ht_used (d_ht0 s) = 0 then
        Some (Inr (Some 0, s\<lparr>d_ht0 := d_ht1 s, d_ht1 := dictReset, d_rehashidx := -1\<rparr>))
      else if \<not> ht_size (d_ht0 s) > ucast (word_of_int (d_rehashidx s) :: uint) then
        Some (Inl AssertFailed)
      else if d_rehashidx s < 0 then Some (Inl OutOfBounds)
      else
        (case ht_table (d_ht0 s) of
           None \<Rightarrow> Some (Inl NullDeref)
         | Some (a0, bs) \<Rightarrow>
             (case dictRehash_skip bs (nat (d_rehashidx s)) of
                None \<Rightarrow> Some (Inl OutOfBounds)
              | Some i \<Rightarrow>
                  (case dictRehash_move (s\<lparr>d_rehashidx := int i\<rparr>) (bs ! i) of
                     None \<Rightarrow> None
                   | Some (Inl f) \<Rightarrow> Some (Inl f)
                   | Some (Inr s1) \<Rightarrow>
                       (case table_set (d_ht0 s1) i None of
                          Inl f \<Rightarrow> Some (Inl f)
                        | Inr t0 \<Rightarrow>
                            dictRehash_loop (s1\<lparr>d_ht0 := t0, d_rehashidx := int i + 1\<rparr>)
                              (n - 1))))))"

definition dictRehash ::
  "('k, 'v) world \<Rightarrow> int \<Rightarrow> (fault + int option \<times> ('k, 'v) world) option" where
  "dictRehash s n = (if \<not> dictIsRehashing s then ret (Some 0, s) else dictRehash_loop s n)"

definition dictRehashStep :: "('k, 'v) world \<Rightarrow> (fault + ('k, 'v) world) option" where
  "dictRehashStep s =
     (if d_iterators s = 0 then bnd (dictRehash s 1) (\<lambda>(r, s1). ret s1) else ret s)"

section \<open>Lookup, insertion, replacement, deletion\<close>

text \<open>
  The \<^verbatim>\<open>while (he)\<close> loop that \<^verbatim>\<open>dictFind\<close> and \<^verbatim>\<open>_dictKeyIndex\<close> both
  contain: walk a chain until an entry compares equal to the key. The result is that
  entry, or \<^verbatim>\<open>NULL\<close> at the end of the chain. On a cyclic chain without the key the
  loop never ends.
\<close>

partial_function (option) chain_lookup ::
  "('k, 'v) world \<Rightarrow> 'k \<Rightarrow> entry_ptr \<Rightarrow> (fault + entry_ptr) option" where
  "chain_lookup s k he =
     (case he of
        None \<Rightarrow> Some (Inr None)
      | Some a \<Rightarrow>
          (case heap s a of
             None \<Rightarrow> Some (Inl DanglingPtr)
           | Some e \<Rightarrow>
               if dictCompareKeys s k (e_key e) then Some (Inr (Some a))
               else chain_lookup s k (e_next e)))"

text \<open>One round of the \<^verbatim>\<open>for (table = 0; table <= 1; table++)\<close> loop of a lookup.\<close>

definition table_lookup ::
  "('k, 'v) world \<Rightarrow> 'k \<Rightarrow> uint \<Rightarrow> nat \<Rightarrow> (fault + entry_ptr) option" where
  "table_lookup s k h t =
     (case table_get (ht s t) (unat (bucket_index h (ht s t))) of
        Inl f \<Rightarrow> fail f
      | Inr he \<Rightarrow> chain_lookup s k he)"

definition dictFind ::
  "('k, 'v) world \<Rightarrow> 'k \<Rightarrow> (fault + entry_ptr \<times> ('k, 'v) world) option" where
  "dictFind s k =
     (if ht_size (d_ht0 s) = 0 then ret (None, s)
      else
        bnd (if dictIsRehashing s then dictRehashStep s else ret s) (\<lambda>s1.
        let h = dictHashKey s1 k in
        bnd (table_lookup s1 k h 0) (\<lambda>r0.
          case r0 of
            Some a \<Rightarrow> ret (Some a, s1)
          | None \<Rightarrow>
              if \<not> dictIsRehashing s1 then ret (None, s1)
              else bnd (table_lookup s1 k h 1) (\<lambda>r1. ret (r1, s1)))))"

definition dictGetVal :: "('k, 'v) world \<Rightarrow> addr \<Rightarrow> fault + 'v" where
  "dictGetVal s a =
     (case heap s a of
        None \<Rightarrow> Inl DanglingPtr
      | Some e \<Rightarrow> (case e_val e of None \<Rightarrow> Inl Indeterminate | Some v \<Rightarrow> Inr v))"

definition dictFetchValue ::
  "('k, 'v) world \<Rightarrow> 'k \<Rightarrow> (fault + 'v option \<times> ('k, 'v) world) option" where
  "dictFetchValue s k =
     bnd (dictFind s k) (\<lambda>(he, s1).
       case he of
         None \<Rightarrow> ret (None, s1)
       | Some a \<Rightarrow> (case dictGetVal s1 a of Inl f \<Rightarrow> fail f | Inr v \<Rightarrow> ret (Some v, s1)))"

text \<open>
  \<^verbatim>\<open>_dictKeyIndex\<close> returns the \<^verbatim>\<open>unsigned int idx\<close> as an \<^verbatim>\<open>int\<close>, or -1 when the
  key is present or the expansion failed.
\<close>

definition dictKeyIndex ::
  "('k, 'v) world \<Rightarrow> 'k \<Rightarrow> (fault + int \<times> ('k, 'v) world) option" where
  "dictKeyIndex s k =
     (case dictExpandIfNeeded s of
        (r, s1) \<Rightarrow>
          if r = DICT_ERR then ret (-1, s1)
          else
            let h = dictHashKey s1 k in
            bnd (table_lookup s1 k h 0) (\<lambda>r0.
              case r0 of
                Some a \<Rightarrow> ret (-1, s1)
              | None \<Rightarrow>
                  if \<not> dictIsRehashing s1 then ret (sint (bucket_index h (d_ht0 s1)), s1)
                  else
                    bnd (table_lookup s1 k h 1) (\<lambda>r1.
                      case r1 of
                        Some a \<Rightarrow> ret (-1, s1)
                      | None \<Rightarrow> ret (sint (bucket_index h (d_ht1 s1)), s1))))"

definition dictSetKey :: "('k, 'v, 'z) dict_scheme \<Rightarrow> 'k \<Rightarrow> 'k" where
  "dictSetKey d k = (case keyDup (d_type d) of Some f \<Rightarrow> f k | None \<Rightarrow> k)"

definition dictSetVal :: "('k, 'v) world \<Rightarrow> addr \<Rightarrow> 'v \<Rightarrow> fault + ('k, 'v) world" where
  "dictSetVal s a v =
     (case heap s a of
        None \<Rightarrow> Inl DanglingPtr
      | Some e \<Rightarrow>
          Inr (s\<lparr>heap := (heap s)(a \<mapsto>
                 e\<lparr>e_val := Some (case valDup (d_type s) of Some f \<Rightarrow> f v | None \<Rightarrow> v)\<rparr>)\<rparr>))"

definition dictFreeVal :: "('k, 'v) world \<Rightarrow> ('k, 'v) dictEntry \<Rightarrow> ('k, 'v) world" where
  "dictFreeVal s e =
     (if valDestructor (d_type s) then s\<lparr>val_destroyed := val_destroyed s @ [e_val e]\<rparr> else s)"

definition dictFreeKey :: "('k, 'v) world \<Rightarrow> ('k, 'v) dictEntry \<Rightarrow> ('k, 'v) world" where
  "dictFreeKey s e =
     (if keyDestructor (d_type s) then s\<lparr>key_destroyed := key_destroyed s @ [e_key e]\<rparr> else s)"

text \<open>
  \<^verbatim>\<open>dictAddRaw\<close>, statement by statement. The new entry is written as
  \<^verbatim>\<open>entry->next = ht->table[index]\<close>; the next statement is
  \<^verbatim>\<open>ht->table[index]->next = entry\<close>, which dereferences the bucket head and stores
  into its \<^verbatim>\<open>next\<close> field (the bucket slot itself is not written). The key slot of
  the new entry is filled by \<^verbatim>\<open>dictSetKey\<close> before anything reads it, so the model
  writes it when the entry is created.
\<close>

definition dictAddRaw ::
  "('k, 'v) world \<Rightarrow> 'k \<Rightarrow> (fault + entry_ptr \<times> ('k, 'v) world) option" where
  "dictAddRaw s k =
     bnd (if dictIsRehashing s then dictRehashStep s else ret s) (\<lambda>s1.
     bnd (dictKeyIndex s1 k) (\<lambda>(index, s2).
       if index = -1 then ret (None, s2)
       else
         let t = (if dictIsRehashing s2 then 1 else 0 :: nat) in
         case zmalloc s2 of
           (entry, s3) \<Rightarrow>
             if index < 0 then fail OutOfBounds
             else
               (case table_get (ht s3 t) (nat index) of
                  Inl f \<Rightarrow> fail f
                | Inr head \<Rightarrow>
                    let s4 = s3\<lparr>heap := (heap s3)(entry \<mapsto>
                               \<lparr>e_key = dictSetKey s3 k, e_val = None, e_next = head\<rparr>)\<rparr>
                    in (case head of
                          None \<Rightarrow> fail NullDeref
                        | Some b \<Rightarrow>
                            (case heap s4 b of
                               None \<Rightarrow> fail DanglingPtr
                             | Some eb \<Rightarrow>
                                 let s5 = s4\<lparr>heap := (heap s4)(b \<mapsto> eb\<lparr>e_next := Some entry\<rparr>)\<rparr>;
                                     s6 = ht_upd t ((ht s5 t)\<lparr>ht_used := ht_used (ht s5 t) + 1\<rparr>) s5
                                 in ret (Some entry, s6))))))"

definition dictAdd ::
  "('k, 'v) world \<Rightarrow> 'k \<Rightarrow> 'v \<Rightarrow> (fault + int \<times> ('k, 'v) world) option" where
  "dictAdd s k v =
     bnd (dictAddRaw s k) (\<lambda>(entry, s1).
       case entry of
         None \<Rightarrow> ret (DICT_ERR, s1)
       | Some a \<Rightarrow> (case dictSetVal s1 a v of Inl f \<Rightarrow> fail f | Inr s2 \<Rightarrow> ret (DICT_OK, s2)))"

text \<open>
  \<^verbatim>\<open>dictReplace\<close> compares the pointer that \<^verbatim>\<open>dictAddRaw\<close> returns with
  \<^verbatim>\<open>DICT_OK\<close>, which is 0: the test holds exactly when the pointer is \<^verbatim>\<open>NULL\<close>.
\<close>

definition dictReplace ::
  "('k, 'v) world \<Rightarrow> 'k \<Rightarrow> 'v \<Rightarrow> (fault + int \<times> ('k, 'v) world) option" where
  "dictReplace s k v =
     bnd (dictAddRaw s k) (\<lambda>(r, s1).
       if r = None then ret (1, s1)
       else
         bnd (dictFind s1 k) (\<lambda>(entry, s2).
           case entry of
             None \<Rightarrow> fail NullDeref
           | Some a \<Rightarrow>
               (case heap s2 a of
                  None \<Rightarrow> fail DanglingPtr
                | Some auxentry \<Rightarrow>
                    (case dictSetVal s2 a v of
                       Inl f \<Rightarrow> fail f
                     | Inr s3 \<Rightarrow> ret (0, dictFreeVal s3 auxentry)))))"

text \<open>
  The chain walk of \<^verbatim>\<open>dictGenericDelete\<close> with its \<^verbatim>\<open>prevHe\<close>: the result is the
  matching entry and its predecessor, or \<open>None\<close> at the end of the chain.
\<close>

partial_function (option) chain_lookup_prev ::
  "('k, 'v) world \<Rightarrow> 'k \<Rightarrow> entry_ptr \<Rightarrow> entry_ptr \<Rightarrow> (fault + (entry_ptr \<times> addr) option) option" where
  "chain_lookup_prev s k prevHe he =
     (case he of
        None \<Rightarrow> Some (Inr None)
      | Some a \<Rightarrow>
          (case heap s a of
             None \<Rightarrow> Some (Inl DanglingPtr)
           | Some e \<Rightarrow>
               if dictCompareKeys s k (e_key e) then Some (Inr (Some (prevHe, a)))
               else chain_lookup_prev s k (Some a) (e_next e)))"

definition dictGenericDelete_table ::
  "('k, 'v) world \<Rightarrow> 'k \<Rightarrow> uint \<Rightarrow> bool \<Rightarrow> nat \<Rightarrow> (fault + ('k, 'v) world option) option" where
  "dictGenericDelete_table s k h nofree t =
     (let idx = unat (bucket_index h (ht s t)) in
      case table_get (ht s t) idx of
        Inl f \<Rightarrow> fail f
      | Inr he \<Rightarrow>
          bnd (chain_lookup_prev s k None he) (\<lambda>r.
            case r of
              None \<Rightarrow> ret None
            | Some (prevHe, a) \<Rightarrow>
                (case heap s a of
                   None \<Rightarrow> fail DanglingPtr
                 | Some e \<Rightarrow>
                     bnd (case prevHe of
                            Some p \<Rightarrow>
                              (case heap s p of
                                 None \<Rightarrow> fail DanglingPtr
                               | Some pe \<Rightarrow>
                                   ret (s\<lparr>heap := (heap s)(p \<mapsto> pe\<lparr>e_next := e_next e\<rparr>)\<rparr>))
                          | None \<Rightarrow>
                              (case table_set (ht s t) idx (e_next e) of
                                 Inl f \<Rightarrow> fail f
                               | Inr tb \<Rightarrow> ret (ht_upd t tb s))) (\<lambda>s1.
                     let s2 = (if nofree then s1 else dictFreeVal (dictFreeKey s1 e) e);
                         s3 = s2\<lparr>heap := (heap s2)(a := None)\<rparr>;
                         s4 = ht_upd t ((ht s3 t)\<lparr>ht_used := ht_used (ht s3 t) - 1\<rparr>) s3
                     in ret (Some s4)))))"

definition dictGenericDelete ::
  "('k, 'v) world \<Rightarrow> 'k \<Rightarrow> bool \<Rightarrow> (fault + int \<times> ('k, 'v) world) option" where
  "dictGenericDelete s k nofree =
     (if ht_size (d_ht0 s) = 0 then ret (DICT_ERR, s)
      else
        bnd (if dictIsRehashing s then dictRehashStep s else ret s) (\<lambda>s1.
        let h = dictHashKey s1 k in
        bnd (dictGenericDelete_table s1 k h nofree 0) (\<lambda>r0.
          case r0 of
            Some s2 \<Rightarrow> ret (DICT_OK, s2)
          | None \<Rightarrow>
              if \<not> dictIsRehashing s1 then ret (DICT_ERR, s1)
              else
                bnd (dictGenericDelete_table s1 k h nofree 1) (\<lambda>r1.
                  case r1 of
                    Some s2 \<Rightarrow> ret (DICT_OK, s2)
                  | None \<Rightarrow> ret (DICT_ERR, s1)))))"


definition dictDeleteNoFree ::
  "('k, 'v) world \<Rightarrow> 'k \<Rightarrow> (fault + int \<times> ('k, 'v) world) option" where
  "dictDeleteNoFree s k = dictGenericDelete s k True"

section \<open>Fingerprint and iterators\<close>

text \<open>
  \<^verbatim>\<open>dictFingerprint\<close> computes in \<^verbatim>\<open>long long\<close>. The model takes the usual
  two's-complement behaviour of the arithmetic: additions and left shifts wrap, and
  \<^verbatim>\<open>>>\<close> on a signed value is an arithmetic shift. A table pointer is read as the
  number of its address, \<^verbatim>\<open>NULL\<close> as 0.
\<close>

definition fingerprint_mix :: "64 word \<Rightarrow> 64 word" where
  "fingerprint_mix h0 =
     (let h1 = NOT h0 + push_bit 21 h0;
          h2 = h1 XOR signed_drop_bit 24 h1;
          h3 = (h2 + push_bit 3 h2) + push_bit 8 h2;
          h4 = h3 XOR signed_drop_bit 14 h3;
          h5 = (h4 + push_bit 2 h4) + push_bit 4 h4;
          h6 = h5 XOR signed_drop_bit 28 h5;
          h7 = h6 + push_bit 31 h6
      in h7)"

definition table_address :: "dictht \<Rightarrow> 64 word" where
  "table_address h = (case ht_table h of None \<Rightarrow> 0 | Some (a, bs) \<Rightarrow> word_of_nat a)"

definition fingerprint_integers :: "('k, 'v, 'z) dict_scheme \<Rightarrow> 64 word list" where
  "fingerprint_integers d =
     [table_address (d_ht0 d), ht_size (d_ht0 d), ht_used (d_ht0 d),
      table_address (d_ht1 d), ht_size (d_ht1 d), ht_used (d_ht1 d)]"

definition dictFingerprint :: "('k, 'v, 'z) dict_scheme \<Rightarrow> 64 word" where
  "dictFingerprint d = fold (\<lambda>i h. fingerprint_mix (h + i)) (fingerprint_integers d) 0"

text \<open>
  The iterator. \<^verbatim>\<open>dictGetIterator\<close> does not write the \<^verbatim>\<open>fingerprint\<close> field, so
  it starts indeterminate (\<open>None\<close>).
\<close>

record dictIterator =
  it_table :: int
  it_index :: int
  it_safe :: bool
  it_entry :: entry_ptr
  it_nextEntry :: entry_ptr
  it_fingerprint :: "64 word option"

definition dictGetIterator :: "('k, 'v) world \<Rightarrow> dictIterator \<times> ('k, 'v) world" where
  "dictGetIterator s =
     (case zmalloc s of
        (a, s1) \<Rightarrow>
          (\<lparr>it_table = 0, it_index = -1, it_safe = False, it_entry = None,
            it_nextEntry = None, it_fingerprint = None\<rparr>, s1))"

definition dictGetSafeIterator :: "('k, 'v) world \<Rightarrow> dictIterator \<times> ('k, 'v) world" where
  "dictGetSafeIterator s = (case dictGetIterator s of (i, s1) \<Rightarrow> (i\<lparr>it_safe := True\<rparr>, s1))"


definition dictReleaseIterator :: "('k, 'v) world \<Rightarrow> dictIterator \<Rightarrow> fault + ('k, 'v) world" where
  "dictReleaseIterator s iter =
     (if \<not> (it_index iter = -1 \<and> it_table iter = 0) then
        (if it_safe iter then Inr (s\<lparr>d_iterators := d_iterators s - 1\<rparr>)
         else
           (case it_fingerprint iter of
              None \<Rightarrow> Inl Indeterminate
            | Some f \<Rightarrow> if f = dictFingerprint s then Inr s else Inl AssertFailed))
      else Inr s)"

section \<open>Cursor scan\<close>

text \<open>
  \<^verbatim>\<open>rev\<close>: the loop halves \<open>s\<close> from 64 down to 1 and swaps blocks of \<open>s\<close> bits.
\<close>

function rev_loop :: "nat \<Rightarrow> ulong \<Rightarrow> ulong \<Rightarrow> ulong" where
  "rev_loop s m v =
     (if s div 2 > 0 then
        rev_loop (s div 2) (m XOR push_bit (s div 2) m)
          ((drop_bit (s div 2) v AND (m XOR push_bit (s div 2) m))
           OR (push_bit (s div 2) v AND NOT (m XOR push_bit (s div 2) m)))
      else v)"
  by pat_completeness auto
termination
  by (relation "measure (\<lambda>(s, m, v). s)") auto

declare rev_loop.simps [simp del]

definition rev_bits :: "ulong \<Rightarrow> ulong" where
  "rev_bits v = rev_loop 64 (NOT 0) v"

text \<open>
  The visitor \<^verbatim>\<open>fn\<close> is an observer: the model collects the addresses of the entries
  it is called with, in order.
\<close>

partial_function (option) dictScan_emit ::
  "('k, 'v) world \<Rightarrow> entry_ptr \<Rightarrow> addr list \<Rightarrow> (fault + addr list) option" where
  "dictScan_emit s de seen =
     (case de of
        None \<Rightarrow> Some (Inr seen)
      | Some a \<Rightarrow>
          (case heap s a of
             None \<Rightarrow> Some (Inl DanglingPtr)
           | Some e \<Rightarrow> dictScan_emit s (e_next e) (seen @ [a])))"

text \<open>
  The \<^verbatim>\<open>do ... while (v & (m0 ^ m1))\<close> loop over the buckets of the larger table.
\<close>

partial_function (option) dictScan_expansions ::
  "('k, 'v) world \<Rightarrow> dictht \<Rightarrow> ulong \<Rightarrow> ulong \<Rightarrow> ulong \<Rightarrow> addr list \<Rightarrow> (fault + ulong \<times> addr list) option" where
  "dictScan_expansions s t1 m0 m1 v seen =
     (case table_get t1 (unat (v AND m1)) of
        Inl f \<Rightarrow> Some (Inl f)
      | Inr de \<Rightarrow>
          (case dictScan_emit s de seen of
             None \<Rightarrow> None
           | Some (Inl f) \<Rightarrow> Some (Inl f)
           | Some (Inr seen1) \<Rightarrow>
               let v1 = (((v OR m0) + 1) AND NOT m0) OR (v AND m0) in
               if v1 AND (m0 XOR m1) \<noteq> 0 then dictScan_expansions s t1 m0 m1 v1 seen1
               else Some (Inr (v1, seen1))))"

definition dictScan :: "('k, 'v) world \<Rightarrow> ulong \<Rightarrow> (fault + ulong \<times> addr list) option" where
  "dictScan s v =
     (if dictSize s = 0 then ret (0, [])
      else
        bnd (if \<not> dictIsRehashing s then
               let t0 = d_ht0 s; m0 = ht_sizemask t0 in
               (case table_get t0 (unat (v AND m0)) of
                  Inl f \<Rightarrow> fail f
                | Inr de \<Rightarrow> bnd (dictScan_emit s de []) (\<lambda>seen. ret (v, m0, seen)))
             else
               let small = (if ht_size (d_ht0 s) > ht_size (d_ht1 s) then d_ht1 s else d_ht0 s);
                   large = (if ht_size (d_ht0 s) > ht_size (d_ht1 s) then d_ht0 s else d_ht1 s);
                   m0 = ht_sizemask small;
                   m1 = ht_sizemask large
               in (case table_get small (unat (v AND m0)) of
                     Inl f \<Rightarrow> fail f
                   | Inr de \<Rightarrow>
                       bnd (dictScan_emit s de []) (\<lambda>seen.
                       bnd (dictScan_expansions s large m0 m1 v seen) (\<lambda>(v1, seen1).
                         ret (v1, m0, seen1))))) (\<lambda>(v1, m0, seen).
        let v2 = v1 OR NOT m0;
            v3 = rev_bits v2;
            v4 = v3 + 1;
            v5 = rev_bits v4
        in ret (v5, seen)))"

section \<open>Auxiliary definitions for the statements\<close>

text \<open>The five shift-and-or lines of \<^verbatim>\<open>_dictNextPower\<close> on their own.\<close>

definition smear :: "ulong \<Rightarrow> ulong" where
  "smear s0 =
     (let s1 = s0 OR drop_bit 1 s0;
          s2 = s1 OR drop_bit 2 s1;
          s3 = s2 OR drop_bit 4 s2;
          s4 = s3 OR drop_bit 8 s3;
          s5 = s4 OR drop_bit 16 s4
      in s5)"

definition is_power_of_two :: "ulong \<Rightarrow> bool" where
  "is_power_of_two w = list_ex (\<lambda>k. w = 2 ^ k) [0..<64]"

text \<open>
  A behaviour descriptor for the examples: keys are 32-bit integers hashed by
  \<^verbatim>\<open>dictIndentityHashFunction\<close>, compared by identity, never duplicated, with both
  destructors installed.
\<close>

definition identityType :: "(uint, nat) dictType" where
  "identityType =
     \<lparr>hashFunction = (\<lambda>k. k), keyDup = None, valDup = None, keyCompare = None,
      keyDestructor = True, valDestructor = True\<rparr>"

text \<open>The dict right after \<^verbatim>\<open>dictCreate\<close>, with an allocator that counts up from 100.\<close>

definition fresh_dict :: "(uint, nat) world" where
  "fresh_dict = dictCreate identityType (\<lambda>i. 100 + i)"

text \<open>
  A well-formed dict with three entries in a table of four buckets: keys 5 and 1 chained
  in bucket 1 (5 first), key 2 in bucket 2; and the same dict after
  \<^verbatim>\<open>dictExpand(d, 8)\<close>, that is, at the start of a rehash into eight buckets.
\<close>

definition three_keys :: "(uint, nat) world" where
  "three_keys =
     \<lparr>d_type = identityType,
      d_ht0 = \<lparr>ht_table = Some (10, [None, Some 2, Some 3, None]),
               ht_size = 4, ht_sizemask = 3, ht_used = 3\<rparr>,
      d_ht1 = dictReset, d_rehashidx = -1, d_iterators = 0,
      heap = [1 \<mapsto> \<lparr>e_key = 1, e_val = Some 10, e_next = None\<rparr>,
              2 \<mapsto> \<lparr>e_key = 5, e_val = Some 50, e_next = Some 1\<rparr>,
              3 \<mapsto> \<lparr>e_key = 2, e_val = Some 20, e_next = None\<rparr>],
      dict_can_resize = True, alloc_addr = (\<lambda>i. 100 + i), alloc_count = 0,
      val_destroyed = [], key_destroyed = []\<rparr>"

definition three_keys_rehashing :: "(uint, nat) world" where
  "three_keys_rehashing = snd (dictExpand three_keys 8)"


text \<open>
  A well-formed dict for the scan: one key, 6, in bucket 6 of a table of sixteen
  buckets (the state of a dict that once held more keys).
\<close>

definition sixteen_buckets :: "(uint, nat) world" where
  "sixteen_buckets =
     \<lparr>d_type = identityType,
      d_ht0 = \<lparr>ht_table = Some (10, [None, None, None, None, None, None, Some 1, None,
                                       None, None, None, None, None, None, None, None]),
               ht_size = 16, ht_sizemask = 15, ht_used = 1\<rparr>,
      d_ht1 = dictReset, d_rehashidx = -1, d_iterators = 0,
      heap = [1 \<mapsto> \<lparr>e_key = 6, e_val = Some 60, e_next = None\<rparr>],
      dict_can_resize = True, alloc_addr = (\<lambda>i. 100 + i), alloc_count = 0,
      val_destroyed = [], key_destroyed = []\<rparr>"

text \<open>
  A crowded dict with automatic resizing disabled: the keys 1 to 23 in four buckets,
  key \<open>a\<close> in the entry at address \<open>a\<close>, linked to the entry at \<open>a - 4\<close>. Its load is
  23 / 4 = 5.75. With a 24th key at the head of bucket 0 the load is 6.
\<close>

definition crowded :: "(uint, nat) world" where
  "crowded =
     \<lparr>d_type = identityType,
      d_ht0 = \<lparr>ht_table = Some (10, [Some 20, Some 21, Some 22, Some 23]),
               ht_size = 4, ht_sizemask = 3, ht_used = 23\<rparr>,
      d_ht1 = dictReset, d_rehashidx = -1, d_iterators = 0,
      heap = (\<lambda>a. if 1 \<le> a \<and> a \<le> 23
                   then Some \<lparr>e_key = of_nat a, e_val = Some (10 * a),
                              e_next = (if a \<le> 4 then None else Some (a - 4))\<rparr>
                   else None),
      dict_can_resize = False, alloc_addr = (\<lambda>i. 100 + i), alloc_count = 0,
      val_destroyed = [], key_destroyed = []\<rparr>"





section \<open>Well-formed dicts\<close>

text \<open>
  \<open>chain hp p as\<close>: following \<^verbatim>\<open>next\<close> from the pointer \<open>p\<close> in the store \<open>hp\<close> visits
  exactly the entries at the addresses \<open>as\<close>, in this order, and then reaches
  \<^verbatim>\<open>NULL\<close>.
\<close>

primrec chain :: "(addr \<rightharpoonup> ('k, 'v) dictEntry) \<Rightarrow> entry_ptr \<Rightarrow> addr list \<Rightarrow> bool" where
  "chain hp p [] = (p = None)"
| "chain hp p (a # as) =
     (p = Some a \<and> (case hp a of None \<Rightarrow> False | Some e \<Rightarrow> chain hp (e_next e) as))"

text \<open>The entry at \<open>a\<close> hashes to bucket \<open>i\<close> of the table \<open>h\<close>.\<close>

definition in_bucket ::
  "(addr \<rightharpoonup> ('k, 'v) dictEntry) \<Rightarrow> ('k, 'v) dictType \<Rightarrow> dictht \<Rightarrow> nat \<Rightarrow> addr \<Rightarrow> bool" where
  "in_bucket hp ty h i a =
     (case hp a of
        None \<Rightarrow> False
      | Some e \<Rightarrow> unat (bucket_index (hashFunction ty (e_key e)) h) = i)"

text \<open>
  A table is well formed for the chains \<open>css\<close> (one list of addresses per bucket): an
  unallocated table is all zero; an allocated one has \<^verbatim>\<open>size\<close> buckets, fewer than
  \<open>2^31\<close> so that the \<^verbatim>\<open>int\<close> indices of the code stay in range, the mask is
  \<^verbatim>\<open>size - 1\<close>, bucket \<open>i\<close> holds the chain \<open>css ! i\<close> whose entries all hash to \<open>i\<close>,
  and \<^verbatim>\<open>used\<close> counts the entries.
\<close>

definition table_ok ::
  "(addr \<rightharpoonup> ('k, 'v) dictEntry) \<Rightarrow> ('k, 'v) dictType \<Rightarrow> dictht \<Rightarrow> addr list list \<Rightarrow> bool" where
  "table_ok hp ty h css =
     (case ht_table h of
        None \<Rightarrow> css = [] \<and> ht_size h = 0 \<and> ht_sizemask h = 0 \<and> ht_used h = 0
      | Some (a, bs) \<Rightarrow>
          ht_size h \<noteq> 0 \<and> unat (ht_size h) < 2 ^ 31 \<and> ht_sizemask h = ht_size h - 1 \<and>
          length bs = unat (ht_size h) \<and> length css = length bs \<and>
          unat (ht_used h) = length (concat css) \<and>
          (\<forall>i < length bs. chain hp (bs ! i) (css ! i) \<and>
                            (\<forall>a \<in> set (css ! i). in_bucket hp ty h i a)))"

definition compare_keys :: "('k, 'v) dictType \<Rightarrow> 'k \<Rightarrow> 'k \<Rightarrow> bool" where
  "compare_keys ty k1 k2 = (case keyCompare ty of Some f \<Rightarrow> f k1 k2 | None \<Rightarrow> k1 = k2)"

definition key_matches ::
  "(addr \<rightharpoonup> ('k, 'v) dictEntry) \<Rightarrow> ('k, 'v) dictType \<Rightarrow> 'k \<Rightarrow> addr \<Rightarrow> bool" where
  "key_matches hp ty k a =
     (case hp a of None \<Rightarrow> False | Some e \<Rightarrow> compare_keys ty k (e_key e))"

text \<open>No two entries of the dict hold keys that compare equal.\<close>

definition keys_unique ::
  "(addr \<rightharpoonup> ('k, 'v) dictEntry) \<Rightarrow> ('k, 'v) dictType \<Rightarrow> addr list \<Rightarrow> bool" where
  "keys_unique hp ty as =
     (\<forall>a \<in> set as. \<forall>b \<in> set as. a \<noteq> b \<longrightarrow>
        (case hp a of None \<Rightarrow> True | Some e \<Rightarrow> \<not> key_matches hp ty (e_key e) b))"

text \<open>
  The contract of the behaviour descriptor: key comparison is an equivalence relation
  and equal keys have equal hashes. Comparison by identity (no \<^verbatim>\<open>keyCompare\<close>)
  satisfies it.
\<close>

definition compare_ok :: "('k, 'v) dictType \<Rightarrow> bool" where
  "compare_ok ty =
     ((\<forall>x. compare_keys ty x x) \<and>
      (\<forall>x y. compare_keys ty x y \<longrightarrow> compare_keys ty y x) \<and>
      (\<forall>x y z. compare_keys ty x y \<and> compare_keys ty y z \<longrightarrow> compare_keys ty x z) \<and>
      (\<forall>x y. compare_keys ty x y \<longrightarrow> hashFunction ty x = hashFunction ty y))"

text \<open>
  The invariant of a dict, for the chains \<open>css0\<close> of table 0 and \<open>css1\<close> of table 1:
  both tables are well formed, no entry is linked twice, keys are unique across both
  tables, and the number of entries fits an \<^verbatim>\<open>unsigned long\<close>. When the dict is not
  rehashing, table 1 is reset; when it is, both tables are allocated and the buckets of
  table 0 below \<^verbatim>\<open>rehashidx\<close> are empty.
\<close>

definition dict_inv :: "('k, 'v) world \<Rightarrow> addr list list \<Rightarrow> addr list list \<Rightarrow> bool" where
  "dict_inv s css0 css1 =
     (table_ok (heap s) (d_type s) (d_ht0 s) css0 \<and>
      table_ok (heap s) (d_type s) (d_ht1 s) css1 \<and>
      distinct (concat css0 @ concat css1) \<and>
      keys_unique (heap s) (d_type s) (concat css0 @ concat css1) \<and>
      length (concat css0) + length (concat css1) < 2 ^ 64 \<and>
      (if d_rehashidx s = -1 then d_ht1 s = dictReset
       else 0 \<le> d_rehashidx s \<and> ht_table (d_ht0 s) \<noteq> None \<and> ht_table (d_ht1 s) \<noteq> None \<and>
            (\<forall>i < length css0. i < nat (d_rehashidx s) \<longrightarrow> css0 ! i = [])))"

text \<open>
  What a lookup of \<open>k\<close> must return in a dict whose entries are \<open>as\<close>: an entry of the
  dict whose key compares equal to \<open>k\<close>, or \<^verbatim>\<open>NULL\<close> when there is none.
\<close>

definition lookup_spec ::
  "(addr \<rightharpoonup> ('k, 'v) dictEntry) \<Rightarrow> ('k, 'v) dictType \<Rightarrow> addr list \<Rightarrow> 'k \<Rightarrow> entry_ptr \<Rightarrow> bool" where
  "lookup_spec hp ty as k r =
     (case r of
        None \<Rightarrow> (\<forall>a \<in> set as. \<not> key_matches hp ty k a)
      | Some a \<Rightarrow> a \<in> set as \<and> key_matches hp ty k a)"

text \<open>The two rounds of the table loop of \<^verbatim>\<open>dictFind\<close>, after the rehash step.\<close>

definition lookup_tables :: "('k, 'v) world \<Rightarrow> 'k \<Rightarrow> (fault + entry_ptr) option" where
  "lookup_tables s k =
     bnd (table_lookup s k (dictHashKey s k) 0) (\<lambda>r0.
       case r0 of
         Some a \<Rightarrow> ret (Some a)
       | None \<Rightarrow>
           if \<not> dictIsRehashing s then ret None
           else table_lookup s k (dictHashKey s k) 1)"

text \<open>\<open>m\<close> calls of \<^verbatim>\<open>dictRehash(d, 1)\<close> in a row.\<close>

fun rehash_calls :: "nat \<Rightarrow> ('k, 'v) world \<Rightarrow> (fault + ('k, 'v) world) option" where
  "rehash_calls 0 s = ret s"
| "rehash_calls (Suc m) s = bnd (dictRehash s 1) (\<lambda>(r, s1). rehash_calls m s1)"

text \<open>
  What a migration keeps, between a state \<open>s\<close> with entries \<open>as\<close> and a state
  \<open>s'\<close> with entries \<open>as'\<close>: the behaviour descriptor, the iterator count, the
  total size, the set of entries, and the key and value of every entry.
\<close>

definition preserved ::
  "('k, 'v) world \<Rightarrow> addr list \<Rightarrow> ('k, 'v) world \<Rightarrow> addr list \<Rightarrow> bool" where
  "preserved s as s' as' =
     (d_type s' = d_type s \<and> d_iterators s' = d_iterators s \<and> dictSize s' = dictSize s \<and>
      set as' = set as \<and>
      (\<forall>a. map_option (\<lambda>e. (e_key e, e_val e)) (heap s' a)
          = map_option (\<lambda>e. (e_key e, e_val e)) (heap s a)))"

section \<open>Basic facts about the model\<close>

lemma DICT_codes: "DICT_OK \<noteq> DICT_ERR"
  by (simp add: DICT_OK_def DICT_ERR_def)

lemma bnd_ret [simp]: "bnd (ret x) f = f x"
  by (simp add: bnd_def ret_def)

lemma bnd_fail [simp]: "bnd (fail e) f = fail e"
  by (simp add: bnd_def fail_def)

lemma bnd_None [simp]: "bnd None f = None"
  by (simp add: bnd_def)

lemma bnd_eq_Some_Inr:
  "bnd m f = Some (Inr y) \<longleftrightarrow> (\<exists>x. m = Some (Inr x) \<and> f x = Some (Inr y))"
  by (auto simp: bnd_def split: option.splits sum.splits)

lemma bndE:
  assumes "bnd m f = Some (Inr y)"
  obtains x where "m = Some (Inr x)" "f x = Some (Inr y)"
  using assms by (auto simp: bnd_def split: option.splits sum.splits)

lemma ret_eq [simp]: "ret x = Some (Inr y) \<longleftrightarrow> x = y"
  by (simp add: ret_def)

lemma fail_neq [simp]: "fail e \<noteq> Some (Inr y)"
  by (simp add: fail_def)

lemma map_option_sum_SomeE:
  assumes "map_option (map_sum id f) m = Some (Inr y)"
  obtains x where "m = Some (Inr x)" "f x = y"
  using assms by (cases m) (auto simp: map_sum_def split: sum.splits)

lemmas eval_defs =
  dictIsRehashing_def zmalloc_def Let_def DICT_OK_def DICT_ERR_def
  DICT_HT_INITIAL_SIZE_def UINT32_MAX_def dict_force_resize_ratio_def
  dictReset_def identityType_def table_lookup_def table_get_def table_set_def ht_def ht_upd_def
  bucket_index_def dictHashKey_def dictCompareKeys_def dictSetKey_def dictSetVal_def
  dictFreeVal_def dictFreeKey_def bnd_def ret_def fail_def dictRehash_skip.simps

lemma replicate8: "replicate 8 x = [x, x, x, x, x, x, x, x]"
  by (simp add: eval_nat_numeral)

lemma three_keys_rehashing_eq:
  "three_keys_rehashing =
     \<lparr>d_type = identityType,
      d_ht0 = \<lparr>ht_table = Some (10, [None, Some 2, Some 3, None]),
               ht_size = 4, ht_sizemask = 3, ht_used = 3\<rparr>,
      d_ht1 = \<lparr>ht_table = Some (100, [None, None, None, None, None, None, None, None]),
               ht_size = 8, ht_sizemask = 7, ht_used = 0\<rparr>,
      d_rehashidx = 0, d_iterators = 0,
      heap = [1 \<mapsto> \<lparr>e_key = 1, e_val = Some 10, e_next = None\<rparr>,
              2 \<mapsto> \<lparr>e_key = 5, e_val = Some 50, e_next = Some 1\<rparr>,
              3 \<mapsto> \<lparr>e_key = 2, e_val = Some 20, e_next = None\<rparr>],
      dict_can_resize = True, alloc_addr = (\<lambda>i. 100 + i), alloc_count = 1,
      val_destroyed = [], key_destroyed = []\<rparr>"
  by (simp add: three_keys_rehashing_def three_keys_def dictExpand_def dictIsRehashing_def
      dictNextPower_def DICT_HT_INITIAL_SIZE_def UINT32_MAX_def zmalloc_def Let_def dictReset_def
      replicate8)


section \<open>C1: insertion\<close>

text \<open>
  When a chain is a cycle of two entries and neither holds the key, the lookup loop
  never returns.
\<close>

lemma chain_lookup_cycle:
  fixes s :: "('k, 'v) world"
  assumes a: "heap s a = Some ea" and b: "heap s b = Some eb"
    and ab: "e_next ea = Some b" and ba: "e_next eb = Some a"
    and na: "\<not> dictCompareKeys s k (e_key ea)" and nb: "\<not> dictCompareKeys s k (e_key eb)"
  shows "chain_lookup s k (Some a) = None"
proof -
  have "\<not> (s' = s \<and> k' = k \<and> (he = Some a \<or> he = Some b))"
    if run: "chain_lookup s' k' he = Some r" for s' k' he r
  proof (rule chain_lookup.raw_induct
      [where P = "\<lambda>s' k' he r. \<not> (s' = s \<and> k' = k \<and> (he = Some a \<or> he = Some b))", OF _ run])
    fix f :: "('k, 'v) world \<Rightarrow> 'k \<Rightarrow> entry_ptr \<Rightarrow> (fault + entry_ptr) option"
    fix s' k' he r
    assume IH: "\<And>s' k' he r. f s' k' he = Some r
       \<Longrightarrow> \<not> (s' = s \<and> k' = k \<and> (he = Some a \<or> he = Some b))"
    assume body: "(case he of
         None \<Rightarrow> Some (Inr None)
       | Some a \<Rightarrow>
           (case heap s' a of
              None \<Rightarrow> Some (Inl DanglingPtr)
            | Some e \<Rightarrow>
                if dictCompareKeys s' k' (e_key e) then Some (Inr (Some a))
                else f s' k' (e_next e))) = Some r"
    show "\<not> (s' = s \<and> k' = k \<and> (he = Some a \<or> he = Some b))"
    proof
      assume h: "s' = s \<and> k' = k \<and> (he = Some a \<or> he = Some b)"
      then consider "he = Some a" | "he = Some b" by blast
      then show False
      proof cases
        case 1
        with body h a ab na have "f s k (Some b) = Some r" by simp
        from IH[OF this] show False by simp
      next
        case 2
        with body h b ba nb have "f s k (Some a) = Some r" by simp
        from IH[OF this] show False by simp
      qed
    qed
  qed
  then have "chain_lookup s k (Some a) \<noteq> Some r" for r by blast
  then show ?thesis by (cases "chain_lookup s k (Some a)") auto
qed


lemma add_eval:
  "map_option (map_sum id (\<lambda>(r, s). (r, d_ht0 s, d_rehashidx s, d_type s,
       heap s 100, heap s 2, heap s 1)))
     (dictAdd three_keys 9 70)
   = Some (Inr (DICT_OK,
        \<lparr>ht_table = Some (10, [None, Some 2, Some 3, None]),
         ht_size = 4, ht_sizemask = 3, ht_used = 4\<rparr>, -1, identityType,
        Some \<lparr>e_key = 9, e_val = Some 70, e_next = Some 2\<rparr>,
        Some \<lparr>e_key = 5, e_val = Some 50, e_next = Some 100\<rparr>,
        Some \<lparr>e_key = 1, e_val = Some 10, e_next = None\<rparr>))"
  by (simp add: three_keys_def dictAdd_def dictAddRaw_def dictKeyIndex_def dictExpandIfNeeded_def
      chain_lookup.simps eval_defs)

lemma find_before_add:
  "map_option (map_sum id fst) (dictFind three_keys 1) = Some (Inr (Some 1))"
  by (simp add: three_keys_def dictFind_def chain_lookup.simps eval_defs)

lemma find_after_add:
  "bnd (dictAdd three_keys 9 70) (\<lambda>(r, s). dictFind s 1) = None"
proof -
  from add_eval obtain x where x: "dictAdd three_keys 9 70 = Some (Inr x)"
    and p: "(\<lambda>(r, s). (r, d_ht0 s, d_rehashidx s, d_type s, heap s 100, heap s 2, heap s 1)) x
      = (DICT_OK,
        \<lparr>ht_table = Some (10, [None, Some 2, Some 3, None]),
         ht_size = 4, ht_sizemask = 3, ht_used = 4\<rparr>, -1, identityType,
        Some \<lparr>e_key = 9, e_val = Some 70, e_next = Some 2\<rparr>,
        Some \<lparr>e_key = 5, e_val = Some 50, e_next = Some 100\<rparr>,
        Some \<lparr>e_key = 1, e_val = Some 10, e_next = None\<rparr>)"
    by (rule map_option_sum_SomeE)
  obtain r s where rs: "x = (r, s)" by (cases x)
  from p rs have t: "d_ht0 s = \<lparr>ht_table = Some (10, [None, Some 2, Some 3, None]),
         ht_size = 4, ht_sizemask = 3, ht_used = 4\<rparr>"
    and ri: "d_rehashidx s = -1" and ty: "d_type s = identityType"
    and h100: "heap s 100 = Some \<lparr>e_key = 9, e_val = Some 70, e_next = Some 2\<rparr>"
    and h2: "heap s 2 = Some \<lparr>e_key = 5, e_val = Some 50, e_next = Some 100\<rparr>"
    by simp_all
  have cyc: "chain_lookup s 1 (Some 2) = None"
    by (rule chain_lookup_cycle[OF h2 h100]) (simp_all add: dictCompareKeys_def ty identityType_def)
  have "dictFind s 1 = None"
    by (simp add: dictFind_def dictIsRehashing_def ri t ty Let_def table_lookup_def table_get_def
        ht_def bucket_index_def dictHashKey_def identityType_def cyc)
  then show ?thesis by (simp add: x rs bnd_def)
qed

text \<open>
  Claim C1 fails on the code. On a fresh dict \<^verbatim>\<open>dictAdd\<close> dereferences the empty
  bucket it is about to fill. On the dict with three keys, adding key 9 (bucket 1, which
  holds 5 and 1) returns \<^verbatim>\<open>DICT_OK\<close> and counts the entry, but the bucket slot still
  points to the old head: the new entry (address 100) is linked behind it and points
  back to it, the entry of key 1 is cut off, and a later \<^verbatim>\<open>dictFind\<close> of key 1,
  which succeeded before, never returns.
\<close>

theorem dictAdd_link_slip:
  "dictAdd fresh_dict 7 70 = Some (Inl NullDeref) \<and>
   map_option (map_sum id (\<lambda>(r, s). (r, d_ht0 s, d_rehashidx s, d_type s,
       heap s 100, heap s 2, heap s 1)))
     (dictAdd three_keys 9 70)
   = Some (Inr (DICT_OK,
        \<lparr>ht_table = Some (10, [None, Some 2, Some 3, None]),
         ht_size = 4, ht_sizemask = 3, ht_used = 4\<rparr>, -1, identityType,
        Some \<lparr>e_key = 9, e_val = Some 70, e_next = Some 2\<rparr>,
        Some \<lparr>e_key = 5, e_val = Some 50, e_next = Some 100\<rparr>,
        Some \<lparr>e_key = 1, e_val = Some 10, e_next = None\<rparr>)) \<and>
   map_option (map_sum id fst) (dictFind three_keys 1) = Some (Inr (Some 1)) \<and>
   bnd (dictAdd three_keys 9 70) (\<lambda>(r, s). dictFind s 1) = None"
proof -
  have "dictAdd fresh_dict 7 70 = Some (Inl NullDeref)"
    by (simp add: fresh_dict_def dictCreate_def dictAdd_def dictAddRaw_def dictKeyIndex_def
        dictExpandIfNeeded_def dictExpand_def dictNextPower_def chain_lookup.simps eval_defs)
  then show ?thesis using add_eval find_before_add find_after_add by simp
qed


section \<open>C2: replacement\<close>

text \<open>
  Claim C2 fails on the code. Replacing the value of key 5, which is present with value
  50, returns 1, leaves the value 50 in place and calls no destructor. Replacing key 9,
  which is absent, returns 0 and calls the value destructor once, on the indeterminate
  value slot of the entry just created.
\<close>

theorem dictReplace_inverted_test:
  "map_option (map_sum id (\<lambda>(r, s). (r, heap s 2, val_destroyed s))) (dictReplace three_keys 5 99)
     = Some (Inr (1, Some \<lparr>e_key = 5, e_val = Some 50, e_next = Some 1\<rparr>, [])) \<and>
   map_option (map_sum id (\<lambda>(r, s). (r, heap s 100, val_destroyed s))) (dictReplace three_keys 9 70)
     = Some (Inr (0, Some \<lparr>e_key = 9, e_val = Some 70, e_next = Some 2\<rparr>, [None]))"
  by (simp add: three_keys_def dictReplace_def dictFind_def dictAddRaw_def dictKeyIndex_def
      dictExpandIfNeeded_def chain_lookup.simps eval_defs)

section \<open>C3: rehashing keeps lookups and the size\<close>

subsection \<open>Chains in the store, lists of buckets\<close>

subsection \<open>Chains\<close>

lemma chain_None [simp]: "chain hp None as \<longleftrightarrow> as = []"
  by (cases as) simp_all

lemma chain_nonempty: "chain hp p as \<Longrightarrow> as \<noteq> [] \<Longrightarrow> p \<noteq> None"
  by (cases as) auto


lemma chain_frame:
  assumes "chain hp p as" "\<And>a. a \<in> set as \<Longrightarrow> hp' a = hp a"
  shows "chain hp' p as"
  using assms by (induction as arbitrary: p) (auto split: option.splits)

lemma chain_in_heap:
  assumes "chain hp p as" "a \<in> set as"
  shows "hp a \<noteq> None"
  using assms by (induction as arbitrary: p) (auto split: option.splits)

lemma dictCompareKeys_eq: "dictCompareKeys s k1 k2 = compare_keys (d_type s) k1 k2"
  by (simp add: dictCompareKeys_def compare_keys_def)

lemma chain_lookup_chain:
  assumes "chain (heap s) p as"
  shows "chain_lookup s k p = Some (Inr (List.find (key_matches (heap s) (d_type s) k) as))"
  using assms
proof (induction as arbitrary: p)
  case Nil
  then show ?case by (simp add: chain_lookup.simps)
next
  case (Cons a as)
  then obtain e where e: "p = Some a" "heap s a = Some e" "chain (heap s) (e_next e) as"
    by (auto split: option.splits)
  have km: "key_matches (heap s) (d_type s) k a = compare_keys (d_type s) k (e_key e)"
    by (simp add: key_matches_def e)
  show ?case
    using e Cons.IH[OF e(3)]
    by (subst chain_lookup.simps) (simp add: km dictCompareKeys_eq)
qed

subsection \<open>Lists of chains\<close>

lemma concat_nth_split:
  assumes "i < length css"
  shows "concat css = concat (take i css) @ css ! i @ concat (drop (Suc i) css)"
proof -
  have "css = take i css @ css ! i # drop (Suc i) css" using assms by (rule id_take_nth_drop)
  then have "concat css = concat (take i css @ css ! i # drop (Suc i) css)" by simp
  then show ?thesis by simp
qed

lemma concat_update_split:
  assumes "i < length css"
  shows "concat (css[i := xs]) = concat (take i css) @ xs @ concat (drop (Suc i) css)"
  using assms by (simp add: upd_conv_take_nth_drop)

lemma nth_subset_concat:
  assumes "i < length css"
  shows "set (css ! i) \<subseteq> set (concat css)"
proof
  fix x
  assume "x \<in> set (css ! i)"
  moreover have "css ! i \<in> set css" using assms by (rule nth_mem)
  ultimately show "x \<in> set (concat css)" by auto
qed

lemma concat_cons_update:
  assumes "i < length css"
  shows "set (concat (css[i := a # css ! i])) = insert a (set (concat css))"
    and "length (concat (css[i := a # css ! i])) = Suc (length (concat css))"
    and "distinct (concat css) \<Longrightarrow> a \<notin> set (concat css) \<Longrightarrow> distinct (concat (css[i := a # css ! i]))"
  using concat_nth_split[OF assms] concat_update_split[OF assms, of "a # css ! i"]
  by auto

lemma concat_clear_update:
  assumes "i < length css"
  shows "length (concat (css[i := [] ])) = length (concat css) - length (css ! i)"
    and "distinct (concat css) \<Longrightarrow> distinct (concat (css[i := [] ]))"
    and "distinct (concat css) \<Longrightarrow> set (concat (css[i := [] ])) = set (concat css) - set (css ! i)"
  using concat_nth_split[OF assms] concat_update_split[OF assms, of "[]"]
  by auto

lemma distinct_concat_nth_disjoint:
  assumes "distinct (concat css)" "i < length css" "j < length css" "i \<noteq> j"
  shows "set (css ! i) \<inter> set (css ! j) = {}"
proof -
  have "set (css ! j) \<subseteq> set (concat (css[i := [] ]))"
    using nth_subset_concat[of j "css[i := [] ]"] assms by simp
  then show ?thesis using concat_clear_update(3)[OF assms(2) assms(1)] by auto
qed

subsection \<open>Bucket indices\<close>

lemma bucket_index_less:
  assumes "ht_size h \<noteq> 0" "ht_sizemask h = ht_size h - 1"
  shows "unat (bucket_index x h) < unat (ht_size h)"
proof -
  let ?w = "(ucast x :: ulong) AND (ht_size h - 1)"
  have "?w \<le> ht_size h - 1" by (rule word_and_le1)
  moreover have "ht_size h - 1 < ht_size h"
  proof -
    have "unat (ht_size h) \<noteq> 0" using assms(1) by (simp add: unat_eq_0)
    then show ?thesis using assms(1) by (simp add: word_less_nat_alt unat_minus_one)
  qed
  ultimately have "unat ?w < unat (ht_size h)" by (simp add: word_le_nat_alt word_less_nat_alt)
  moreover have "unat (ucast ?w :: uint) \<le> unat ?w"
    by (simp add: unsigned_ucast_eq take_bit_nat_less_eq_self)
  ultimately show ?thesis by (simp add: bucket_index_def assms(2))
qed

subsection \<open>Moving one entry to table 1\<close>

lemma table_okD:
  assumes "table_ok hp ty h css" "ht_table h = Some (a, bs)"
  shows "ht_size h \<noteq> 0" "unat (ht_size h) < 2 ^ 31" "ht_sizemask h = ht_size h - 1"
    "length bs = unat (ht_size h)" "length css = length bs"
    "unat (ht_used h) = length (concat css)"
    "\<And>i. i < length bs \<Longrightarrow> chain hp (bs ! i) (css ! i)"
    "\<And>i x. i < length bs \<Longrightarrow> x \<in> set (css ! i) \<Longrightarrow> in_bucket hp ty h i x"
  using assms by (auto simp: table_ok_def)

lemma table_okI:
  assumes "ht_table h = Some (a, bs)"
    "ht_size h \<noteq> 0" "unat (ht_size h) < 2 ^ 31" "ht_sizemask h = ht_size h - 1"
    "length bs = unat (ht_size h)" "length css = length bs"
    "unat (ht_used h) = length (concat css)"
    "\<And>i. i < length bs \<Longrightarrow> chain hp (bs ! i) (css ! i)"
    "\<And>i x. i < length bs \<Longrightarrow> x \<in> set (css ! i) \<Longrightarrow> in_bucket hp ty h i x"
  shows "table_ok hp ty h css"
  using assms by (auto simp: table_ok_def)

lemma in_bucket_cong:
  assumes "map_option e_key (hp' a) = map_option e_key (hp a)"
    "ht_sizemask h' = ht_sizemask h"
  shows "in_bucket hp' ty h' i a = in_bucket hp ty h i a"
  using assms by (auto simp: in_bucket_def bucket_index_def split: option.splits)

text \<open>One round of the move loop.\<close>

lemma move_round:
  fixes s :: "('k, 'v) world"
  assumes t1: "table_ok (heap s) (d_type s) (d_ht1 s) css1"
    and al: "ht_table (d_ht1 s) = Some (a1, bs1)"
    and ha: "heap s a = Some e"
    and fresh: "a \<notin> set (concat css1)"
    and dis: "distinct (concat css1)"
    and bound: "Suc (length (concat css1)) < 2 ^ 64"
  defines "h \<equiv> unat (bucket_index (dictHashKey s (e_key e)) (d_ht1 s))"
  defines "s2 \<equiv> s\<lparr>heap := (heap s)(a \<mapsto> e\<lparr>e_next := bs1 ! h\<rparr>),
                   d_ht1 := (d_ht1 s)\<lparr>ht_table := Some (a1, bs1[h := Some a]),
                                       ht_used := ht_used (d_ht1 s) + 1\<rparr>,
                   d_ht0 := (d_ht0 s)\<lparr>ht_used := ht_used (d_ht0 s) - 1\<rparr>\<rparr>"
  shows "dictRehash_move s (Some a) = dictRehash_move s2 (e_next e)"
    and "table_ok (heap s2) (d_type s2) (d_ht1 s2) (css1[h := a # css1 ! h])"
    and "h < length css1"
proof -
  note ok = table_okD[OF t1 al]
  have hl: "h < length bs1"
    unfolding h_def using bucket_index_less[OF ok(1) ok(3)] ok(4) by simp
  then show hc: "h < length css1" using ok(5) by simp
  show "dictRehash_move s (Some a) = dictRehash_move s2 (e_next e)"
    by (subst dictRehash_move.simps)
       (simp add: ha Let_def table_get_def table_set_def al hl h_def[symmetric] s2_def)
  have a_not: "a \<notin> set (css1 ! i)" if "i < length css1" for i
    using fresh nth_subset_concat[OF that] by auto
  show "table_ok (heap s2) (d_type s2) (d_ht1 s2) (css1[h := a # css1 ! h])"
  proof (rule table_okI[where a = a1 and bs = "bs1[h := Some a]"])
    show "ht_table (d_ht1 s2) = Some (a1, bs1[h := Some a])" by (simp add: s2_def)
    show "ht_size (d_ht1 s2) \<noteq> 0" using ok(1) by (simp add: s2_def)
    show "unat (ht_size (d_ht1 s2)) < 2 ^ 31" using ok(2) by (simp add: s2_def)
    show "ht_sizemask (d_ht1 s2) = ht_size (d_ht1 s2) - 1" using ok(3) by (simp add: s2_def)
    show "length (bs1[h := Some a]) = unat (ht_size (d_ht1 s2))" using ok(4) by (simp add: s2_def)
    show "length (css1[h := a # css1 ! h]) = length (bs1[h := Some a])" using ok(5) by simp
    show "unat (ht_used (d_ht1 s2)) = length (concat (css1[h := a # css1 ! h]))"
    proof -
      have "unat (ht_used (d_ht1 s) + 1) = unat (ht_used (d_ht1 s)) + 1"
        using bound ok(6) by (simp add: unat_word_ariths)
      then show ?thesis using ok(6) concat_cons_update(2)[OF hc] by (simp add: s2_def)
    qed
  next
    fix i assume i: "i < length (bs1[h := Some a])"
    then have il: "i < length bs1" "i < length css1" using ok(5) by simp_all
    have old: "chain (heap s2) (bs1 ! i) (css1 ! i)"
      by (rule chain_frame[OF ok(7)[OF il(1)] ]) (use a_not[OF il(2)] in \<open>auto simp: s2_def\<close>)
    show "chain (heap s2) (bs1[h := Some a] ! i) (css1[h := a # css1 ! h] ! i)"
    proof (cases "i = h")
      case True
      have "chain (heap s2) (bs1 ! h) (css1 ! h)" using old True by simp
      then show ?thesis using True hl hc by (simp add: s2_def)
    next
      case False
      then show ?thesis using old by simp
    qed
  next
    fix i x assume i: "i < length (bs1[h := Some a])"
      and x: "x \<in> set (css1[h := a # css1 ! h] ! i)"
    from i have il: "i < length bs1" "i < length css1" using ok(5) by simp_all
    have keys: "map_option e_key (heap s2 y) = map_option e_key (heap s y)" for y
      by (simp add: s2_def ha)
    have mask: "ht_sizemask (d_ht1 s2) = ht_sizemask (d_ht1 s)" by (simp add: s2_def)
    have ty: "d_type s2 = d_type s" by (simp add: s2_def)
    have eq: "in_bucket (heap s2) (d_type s2) (d_ht1 s2) i x = in_bucket (heap s) (d_type s) (d_ht1 s) i x"
      unfolding ty by (rule in_bucket_cong[OF keys mask])
    show "in_bucket (heap s2) (d_type s2) (d_ht1 s2) i x"
    proof (cases "x \<in> set (css1 ! i)")
      case True
      then show ?thesis using ok(8)[OF il(1)] eq by simp
    next
      case False
      have "i = h \<and> x = a"
      proof (cases "i = h")
        case True
        with x il False show ?thesis by simp
      next
        case ne: False
        with x il False show ?thesis by simp
      qed
      then show ?thesis unfolding eq by (simp add: in_bucket_def ha h_def dictHashKey_def)
    qed
  qed
qed

subsection \<open>Moving a whole chain\<close>

lemma dictRehash_move_correct:
  fixes s :: "('k, 'v) world"
  assumes "chain (heap s) de as"
    and "table_ok (heap s) (d_type s) (d_ht1 s) css1"
    and "ht_table (d_ht1 s) = Some (a1, bs1)"
    and "distinct (as @ concat css1)"
    and "length as + length (concat css1) < 2 ^ 64"
    and "length as \<le> unat (ht_used (d_ht0 s))"
  shows "\<exists>s' css1' bs1'. dictRehash_move s de = Some (Inr s') \<and>
      s' = s\<lparr>heap := heap s', d_ht0 := d_ht0 s', d_ht1 := d_ht1 s'\<rparr> \<and>
      d_ht0 s' = (d_ht0 s)\<lparr>ht_used := ht_used (d_ht0 s')\<rparr> \<and>
      unat (ht_used (d_ht0 s')) = unat (ht_used (d_ht0 s)) - length as \<and>
      ht_used (d_ht0 s') + ht_used (d_ht1 s') = ht_used (d_ht0 s) + ht_used (d_ht1 s) \<and>
      ht_table (d_ht1 s') = Some (a1, bs1') \<and>
      table_ok (heap s') (d_type s) (d_ht1 s') css1' \<and>
      set (concat css1') = set as \<union> set (concat css1) \<and>
      distinct (concat css1') \<and>
      length (concat css1') = length as + length (concat css1) \<and>
      (\<forall>a. a \<notin> set as \<longrightarrow> heap s' a = heap s a) \<and>
      (\<forall>a. map_option (\<lambda>e. (e_key e, e_val e)) (heap s' a)
          = map_option (\<lambda>e. (e_key e, e_val e)) (heap s a))"
  using assms
proof (induction as arbitrary: s de css1 bs1)
  case Nil
  then have de: "de = None" by simp
  have "dictRehash_move s None = Some (Inr s)" by (subst dictRehash_move.simps) simp
  moreover have "distinct (concat css1)" using Nil.prems(4) by simp
  ultimately show ?case
    using Nil.prems(2,3) de
    by (intro exI[of _ s] exI[of _ css1] exI[of _ bs1]) simp
next
  case (Cons a as)
  from Cons.prems(1) obtain e where de: "de = Some a" and ha: "heap s a = Some e"
    and ch: "chain (heap s) (e_next e) as"
    by (auto split: option.splits)
  define h where "h = unat (bucket_index (dictHashKey s (e_key e)) (d_ht1 s))"
  define s2 where "s2 = s\<lparr>heap := (heap s)(a \<mapsto> e\<lparr>e_next := bs1 ! h\<rparr>),
                   d_ht1 := (d_ht1 s)\<lparr>ht_table := Some (a1, bs1[h := Some a]),
                                       ht_used := ht_used (d_ht1 s) + 1\<rparr>,
                   d_ht0 := (d_ht0 s)\<lparr>ht_used := ht_used (d_ht0 s) - 1\<rparr>\<rparr>"
  have fresh: "a \<notin> set (concat css1)" and a_as: "a \<notin> set as"
    and dis1: "distinct (concat css1)" and dis_as: "distinct as"
    and disj: "set as \<inter> set (concat css1) = {}"
    using Cons.prems(4) by auto
  have b1: "Suc (length (concat css1)) < 2 ^ 64" using Cons.prems(5) by simp
  note round = move_round[OF Cons.prems(2) Cons.prems(3) ha fresh dis1 b1,
      folded h_def, folded s2_def]
  let ?css2 = "css1[h := a # css1 ! h]"
  have hc: "h < length css1" by (rule round(3))
  have p1: "chain (heap s2) (e_next e) as"
    by (rule chain_frame[OF ch]) (use a_as in \<open>auto simp: s2_def\<close>)
  have p2: "table_ok (heap s2) (d_type s2) (d_ht1 s2) ?css2" by (rule round(2))
  have p3: "ht_table (d_ht1 s2) = Some (a1, bs1[h := Some a])" by (simp add: s2_def)
  have p4: "distinct (as @ concat ?css2)"
    using dis_as disj a_as concat_cons_update(1)[OF hc, of a]
      concat_cons_update(3)[OF hc dis1 fresh] by auto
  have p5: "length as + length (concat ?css2) < 2 ^ 64"
    using Cons.prems(5) concat_cons_update(2)[OF hc, of a] by simp
  have u0: "unat (ht_used (d_ht0 s)) \<noteq> 0" using Cons.prems(6) by auto
  then have u0': "ht_used (d_ht0 s) \<noteq> 0" by auto
  have um: "unat (ht_used (d_ht0 s) - 1) = unat (ht_used (d_ht0 s)) - 1"
    using u0' by (simp add: unat_minus_one)
  have p6: "length as \<le> unat (ht_used (d_ht0 s2))"
    using Cons.prems(6) um by (simp add: s2_def)
  from Cons.IH[OF p1 p2 p3 p4 p5 p6]
  obtain s' css1' bs1' where r: "dictRehash_move s2 (e_next e) = Some (Inr s')"
    and st: "s' = s2\<lparr>heap := heap s', d_ht0 := d_ht0 s', d_ht1 := d_ht1 s'\<rparr>"
    and t0: "d_ht0 s' = (d_ht0 s2)\<lparr>ht_used := ht_used (d_ht0 s')\<rparr>"
    and un: "unat (ht_used (d_ht0 s')) = unat (ht_used (d_ht0 s2)) - length as"
    and sum: "ht_used (d_ht0 s') + ht_used (d_ht1 s') = ht_used (d_ht0 s2) + ht_used (d_ht1 s2)"
    and tb: "ht_table (d_ht1 s') = Some (a1, bs1')"
    and ok: "table_ok (heap s') (d_type s2) (d_ht1 s') css1'"
    and se: "set (concat css1') = set as \<union> set (concat ?css2)"
    and di: "distinct (concat css1')"
    and le: "length (concat css1') = length as + length (concat ?css2)"
    and fr: "\<forall>x. x \<notin> set as \<longrightarrow> heap s' x = heap s2 x"
    and kv: "\<forall>x. map_option (\<lambda>e. (e_key e, e_val e)) (heap s' x)
          = map_option (\<lambda>e. (e_key e, e_val e)) (heap s2 x)"
    by blast
  have c1: "dictRehash_move s de = Some (Inr s')" using round(1) r de by simp
  have c2: "s' = s\<lparr>heap := heap s', d_ht0 := d_ht0 s', d_ht1 := d_ht1 s'\<rparr>"
    by (subst st) (simp add: s2_def)
  have c3: "d_ht0 s' = (d_ht0 s)\<lparr>ht_used := ht_used (d_ht0 s')\<rparr>"
    by (subst t0) (simp add: s2_def)
  have c4: "unat (ht_used (d_ht0 s')) = unat (ht_used (d_ht0 s)) - length (a # as)"
    using un um by (simp add: s2_def)
  have c5: "ht_used (d_ht0 s') + ht_used (d_ht1 s') = ht_used (d_ht0 s) + ht_used (d_ht1 s)"
    using sum by (simp add: s2_def)
  have c7: "table_ok (heap s') (d_type s) (d_ht1 s') css1'" using ok by (simp add: s2_def)
  have c8: "set (concat css1') = set (a # as) \<union> set (concat css1)"
    using se concat_cons_update(1)[OF hc, of a] by auto
  have c10: "length (concat css1') = length (a # as) + length (concat css1)"
    using le concat_cons_update(2)[OF hc, of a] by simp
  have c11: "\<forall>x. x \<notin> set (a # as) \<longrightarrow> heap s' x = heap s x"
    using fr by (auto simp: s2_def)
  have c12: "\<forall>x. map_option (\<lambda>e. (e_key e, e_val e)) (heap s' x)
          = map_option (\<lambda>e. (e_key e, e_val e)) (heap s x)"
    using kv by (auto simp: s2_def ha)
  show ?case
    using c1 c2 c3 c4 c5 tb c7 c8 di c10 c11 c12 by blast
qed

subsection \<open>Skipping empty buckets, and what a table does not depend on\<close>

lemma dictRehash_skip_correct:
  assumes "j \<le> i" "i < length bs" "bs ! i \<noteq> None"
  shows "\<exists>i0. dictRehash_skip bs j = Some i0 \<and> j \<le> i0 \<and> i0 \<le> i \<and> bs ! i0 \<noteq> None \<and>
           (\<forall>m. j \<le> m \<and> m < i0 \<longrightarrow> bs ! m = None)"
  using assms
proof (induction bs j rule: dictRehash_skip.induct)
  case (1 bs j)
  have jl: "j < length bs" using "1.prems" by simp
  show ?case
  proof (cases "bs ! j = None")
    case True
    then have "j \<noteq> i" using "1.prems"(3) by auto
    then have "j + 1 \<le> i" using "1.prems"(1) by simp
    from "1.IH"[OF jl True this "1.prems"(2,3)]
    obtain i0 where i0: "dictRehash_skip bs (j + 1) = Some i0" "j + 1 \<le> i0" "i0 \<le> i"
      "bs ! i0 \<noteq> None" "\<forall>m. j + 1 \<le> m \<and> m < i0 \<longrightarrow> bs ! m = None" by blast
    have "\<forall>m. j \<le> m \<and> m < i0 \<longrightarrow> bs ! m = None"
    proof (intro allI impI)
      fix m assume "j \<le> m \<and> m < i0"
      then show "bs ! m = None" using True i0(5) by (cases "m = j") auto
    qed
    moreover have "dictRehash_skip bs j = Some i0"
      using i0(1) jl True by (subst dictRehash_skip.simps) simp
    ultimately show ?thesis using i0 by (intro exI[of _ i0]) simp
  next
    case False
    have "dictRehash_skip bs j = Some j"
      using jl False by (subst dictRehash_skip.simps) auto
    then show ?thesis using False "1.prems"(1) by (intro exI[of _ j]) auto
  qed
qed

lemma table_ok_reset: "table_ok hp ty dictReset []"
  by (simp add: table_ok_def dictReset_def)

lemma table_ok_unallocated:
  assumes "table_ok hp ty h css" "ht_table h = None"
  shows "css = []" "ht_size h = 0"
  using assms by (auto simp: table_ok_def)

lemma keys_unique_cong:
  assumes "keys_unique hp ty as" "set bs \<subseteq> set as"
    "\<And>a. map_option e_key (hp' a) = map_option e_key (hp a)"
  shows "keys_unique hp' ty bs"
proof -
  have km: "key_matches hp' ty k a = key_matches hp ty k a" for k a
    using assms(3)[of a] by (auto simp: key_matches_def split: option.splits)
  show ?thesis
    unfolding keys_unique_def
  proof (intro ballI impI)
    fix a b assume ab: "a \<in> set bs" "b \<in> set bs" "a \<noteq> b"
    then have "case hp a of None \<Rightarrow> True | Some e \<Rightarrow> \<not> key_matches hp ty (e_key e) b"
      using assms(1,2) unfolding keys_unique_def by blast
    then show "case hp' a of None \<Rightarrow> True | Some e \<Rightarrow> \<not> key_matches hp' ty (e_key e) b"
      using assms(3)[of a] by (auto simp: km split: option.splits)
  qed
qed

lemma table_ok_frame:
  assumes ok: "table_ok hp ty h css"
    and fr: "\<And>a. a \<in> set (concat css) \<Longrightarrow> hp' a = hp a"
  shows "table_ok hp' ty h css"
proof (cases "ht_table h")
  case None
  then show ?thesis using ok by (simp add: table_ok_def)
next
  case (Some p)
  obtain a bs where p: "p = (a, bs)" by (cases p)
  note d = table_okD[OF ok Some[unfolded p] ]
  show ?thesis
  proof (rule table_okI[OF Some[unfolded p] d(1-6)])
    fix i assume i: "i < length bs"
    then have ic: "i < length css" using d(5) by simp
    show "chain hp' (bs ! i) (css ! i)"
      by (rule chain_frame[OF d(7)[OF i] ]) (use nth_subset_concat[OF ic] fr in auto)
    fix x assume x: "x \<in> set (css ! i)"
    then have "hp' x = hp x" using nth_subset_concat[OF ic] fr by auto
    then show "in_bucket hp' ty h i x" using d(8)[OF i x] by (simp add: in_bucket_def)
  qed
qed

subsection \<open>Facts about a rehashing dict\<close>

lemma dict_inv_rehashingD:
  assumes "dict_inv s css0 css1" "d_rehashidx s \<noteq> -1"
  shows "\<exists>a0 bs0 a1 bs1.
    table_ok (heap s) (d_type s) (d_ht0 s) css0 \<and>
    table_ok (heap s) (d_type s) (d_ht1 s) css1 \<and>
    distinct (concat css0 @ concat css1) \<and>
    keys_unique (heap s) (d_type s) (concat css0 @ concat css1) \<and>
    length (concat css0) + length (concat css1) < 2 ^ 64 \<and>
    0 \<le> d_rehashidx s \<and>
    ht_table (d_ht0 s) = Some (a0, bs0) \<and> ht_table (d_ht1 s) = Some (a1, bs1) \<and>
    (\<forall>i. i < length css0 \<longrightarrow> i < nat (d_rehashidx s) \<longrightarrow> css0 ! i = [])"
  using assms unfolding dict_inv_def by (auto split: if_splits)

lemma assert_in_range:
  fixes sz :: ulong
  assumes "0 \<le> r" "nat r < unat sz"
  shows "ucast (word_of_int r :: uint) < sz"
proof -
  have "unat (word_of_int r :: uint) \<le> nat r"
  proof -
    have "unat (word_of_int r :: uint) = nat (take_bit 32 r)"
      by (simp add: unsigned_of_int)
    also have "\<dots> \<le> nat r" using assms(1) by (simp add: take_bit_int_less_eq_self_iff nat_mono)
    finally show ?thesis .
  qed
  moreover have "unat (ucast (word_of_int r :: uint) :: ulong) = unat (word_of_int r :: uint)"
  proof -
    have "unat (word_of_int r :: uint) < 2 ^ 32" using unsigned_less[of "word_of_int r :: uint", where ?'a = nat] by simp
    then have "unat (word_of_int r :: uint) < 2 ^ 64" by simp
    then show ?thesis by (simp add: unsigned_ucast_eq take_bit_nat_eq_self)
  qed
  ultimately show ?thesis using assms(2) by (simp add: word_less_nat_alt)
qed

subsection \<open>One bucket of the migration\<close>

lemma rehash_bucket:
  fixes s :: "('k, 'v) world"
  assumes inv: "dict_inv s css0 css1" and reh: "d_rehashidx s \<noteq> -1"
    and used: "ht_used (d_ht0 s) \<noteq> 0"
  shows "\<exists>s' css0' css1'.
      (\<forall>n. n \<noteq> 0 \<longrightarrow> dictRehash_loop s n = dictRehash_loop s' (n - 1)) \<and>
      dict_inv s' css0' css1' \<and> d_rehashidx s' \<noteq> -1 \<and>
      d_type s' = d_type s \<and> d_iterators s' = d_iterators s \<and> dictSize s' = dictSize s \<and>
      set (concat css0' @ concat css1') = set (concat css0 @ concat css1) \<and>
      (\<forall>a. map_option (\<lambda>e. (e_key e, e_val e)) (heap s' a)
          = map_option (\<lambda>e. (e_key e, e_val e)) (heap s a)) \<and>
      length (concat css0') < length (concat css0) \<and>
      ht_table (d_ht0 s') \<noteq> None"
proof -
  from dict_inv_rehashingD[OF inv reh] obtain a0 bs0 a1 bs1 where
    t0: "table_ok (heap s) (d_type s) (d_ht0 s) css0" and
    t1: "table_ok (heap s) (d_type s) (d_ht1 s) css1" and
    dist: "distinct (concat css0 @ concat css1)" and
    ku: "keys_unique (heap s) (d_type s) (concat css0 @ concat css1)" and
    bound: "length (concat css0) + length (concat css1) < 2 ^ 64" and
    r0: "0 \<le> d_rehashidx s" and
    al0: "ht_table (d_ht0 s) = Some (a0, bs0)" and al1: "ht_table (d_ht1 s) = Some (a1, bs1)" and
    emp': "\<forall>i. i < length css0 \<longrightarrow> i < nat (d_rehashidx s) \<longrightarrow> css0 ! i = []"
    by blast
  have emp: "css0 ! i = []" if "i < length css0" "i < nat (d_rehashidx s)" for i
    using emp' that by blast
  note d0 = table_okD[OF t0 al0]
  let ?r = "nat (d_rehashidx s)"
  \<comment> \<open>some bucket at or after the cursor is not empty\<close>
  have "unat (ht_used (d_ht0 s)) \<noteq> 0" using used by (simp add: unat_eq_0)
  then have "concat css0 \<noteq> []" using d0(6) by auto
  then obtain i where i: "i < length css0" "css0 ! i \<noteq> []"
    by (auto simp: in_set_conv_nth)
  have ri: "?r \<le> i" using emp[OF i(1)] i(2) by (cases "i < ?r") auto
  have il: "i < length bs0" using i(1) d0(5) by simp
  have bi: "bs0 ! i \<noteq> None" using d0(7)[OF il] i(2) by (rule chain_nonempty)
  from dictRehash_skip_correct[OF ri il bi]
  obtain j where j: "dictRehash_skip bs0 ?r = Some j" "?r \<le> j" "j \<le> i" "bs0 ! j \<noteq> None"
    "\<forall>m. ?r \<le> m \<and> m < j \<longrightarrow> bs0 ! m = None" by blast
  have jl: "j < length bs0" using j(3) il by simp
  then have jc: "j < length css0" using d0(5) by simp
  have asrt: "ucast (word_of_int (d_rehashidx s) :: uint) < ht_size (d_ht0 s)"
    by (rule assert_in_range[OF r0]) (use ri il d0(4) in simp)
  \<comment> \<open>the chain of bucket j is moved\<close>
  define as where "as = css0 ! j"
  define sa where "sa = s\<lparr>d_rehashidx := int j\<rparr>"
  have as_sub: "set as \<subseteq> set (concat css0)" unfolding as_def by (rule nth_subset_concat[OF jc])
  have cs: "concat css0 = concat (take j css0) @ as @ concat (drop (Suc j) css0)"
    unfolding as_def by (rule concat_nth_split[OF jc])
  have m1: "chain (heap sa) (bs0 ! j) as" using d0(7)[OF jl] by (simp add: sa_def as_def)
  have m2: "table_ok (heap sa) (d_type sa) (d_ht1 sa) css1" using t1 by (simp add: sa_def)
  have m3: "ht_table (d_ht1 sa) = Some (a1, bs1)" using al1 by (simp add: sa_def)
  have m4: "distinct (as @ concat css1)" using dist cs by auto
  have m5: "length as + length (concat css1) < 2 ^ 64" using bound cs by simp
  have m6: "length as \<le> unat (ht_used (d_ht0 sa))" using d0(6) cs by (simp add: sa_def)
  from dictRehash_move_correct[OF m1 m2 m3 m4 m5 m6]
  obtain sb css1' bs1' where
    mv: "dictRehash_move sa (bs0 ! j) = Some (Inr sb)" and
    st: "sb = sa\<lparr>heap := heap sb, d_ht0 := d_ht0 sb, d_ht1 := d_ht1 sb\<rparr>" and
    b0: "d_ht0 sb = (d_ht0 sa)\<lparr>ht_used := ht_used (d_ht0 sb)\<rparr>" and
    un: "unat (ht_used (d_ht0 sb)) = unat (ht_used (d_ht0 sa)) - length as" and
    sum: "ht_used (d_ht0 sb) + ht_used (d_ht1 sb) = ht_used (d_ht0 sa) + ht_used (d_ht1 sa)" and
    tb: "ht_table (d_ht1 sb) = Some (a1, bs1')" and
    ok1: "table_ok (heap sb) (d_type sa) (d_ht1 sb) css1'" and
    se: "set (concat css1') = set as \<union> set (concat css1)" and
    di: "distinct (concat css1')" and
    le: "length (concat css1') = length as + length (concat css1)" and
    fr: "\<forall>x. x \<notin> set as \<longrightarrow> heap sb x = heap sa x" and
    kv: "\<forall>x. map_option (\<lambda>e. (e_key e, e_val e)) (heap sb x)
          = map_option (\<lambda>e. (e_key e, e_val e)) (heap sa x)"
    by blast
  have sb_fields: "d_type sb = d_type s" "d_iterators sb = d_iterators s" "d_rehashidx sb = int j"
    by (subst st, simp add: sa_def)+
  have sb_t0: "ht_table (d_ht0 sb) = Some (a0, bs0)" "ht_size (d_ht0 sb) = ht_size (d_ht0 s)"
    "ht_sizemask (d_ht0 sb) = ht_sizemask (d_ht0 s)"
    by (subst b0, simp add: sa_def al0)+
  define t0' where "t0' = (d_ht0 sb)\<lparr>ht_table := Some (a0, bs0[j := None])\<rparr>"
  define s' where "s' = sb\<lparr>d_ht0 := t0', d_rehashidx := int j + 1\<rparr>"
  let ?css0' = "css0[j := [] ]"
  have ts: "table_set (d_ht0 sb) j None = Inr t0'"
    by (simp add: table_set_def sb_t0 jl t0'_def)
  have loop: "dictRehash_loop s n = dictRehash_loop s' (n - 1)" if "n \<noteq> 0" for n
    using that used asrt r0
    by (subst dictRehash_loop.simps)
       (simp add: al0 j(1) mv[unfolded sa_def] ts s'_def not_less[symmetric] sa_def)
  have keys: "map_option e_key (heap sb x) = map_option e_key (heap s x)" for x
  proof -
    have "map_option fst (map_option (\<lambda>e. (e_key e, e_val e)) (heap sb x))
        = map_option fst (map_option (\<lambda>e. (e_key e, e_val e)) (heap sa x))"
      using kv by simp
    then show ?thesis by (simp add: option.map_comp comp_def sa_def)
  qed
  \<comment> \<open>the invariant holds again\<close>
  have as_len: "length as \<le> length (concat css0)" using cs by simp
  have i0: "table_ok (heap s') (d_type s') (d_ht0 s') ?css0'"
  proof (rule table_okI[where a = a0 and bs = "bs0[j := None]"])
    show "ht_table (d_ht0 s') = Some (a0, bs0[j := None])" by (simp add: s'_def t0'_def)
    show "ht_size (d_ht0 s') \<noteq> 0" using d0(1) sb_t0 by (simp add: s'_def t0'_def)
    show "unat (ht_size (d_ht0 s')) < 2 ^ 31" using d0(2) sb_t0 by (simp add: s'_def t0'_def)
    show "ht_sizemask (d_ht0 s') = ht_size (d_ht0 s') - 1" using d0(3) sb_t0 by (simp add: s'_def t0'_def)
    show "length (bs0[j := None]) = unat (ht_size (d_ht0 s'))" using d0(4) sb_t0 by (simp add: s'_def t0'_def)
    show "length ?css0' = length (bs0[j := None])" using d0(5) by simp
    show "unat (ht_used (d_ht0 s')) = length (concat ?css0')"
      using un d0(6) concat_clear_update(1)[OF jc] by (simp add: s'_def t0'_def sa_def as_def)
  next
    fix m assume "m < length (bs0[j := None])"
    then have ml: "m < length bs0" "m < length css0" using d0(5) by simp_all
    show "chain (heap s') (bs0[j := None] ! m) (?css0' ! m)"
    proof (cases "m = j")
      case True
      then show ?thesis using jl jc by simp
    next
      case False
      have dj: "set (css0 ! m) \<inter> set as = {}"
        unfolding as_def by (rule distinct_concat_nth_disjoint[OF _ ml(2) jc False]) (use dist in simp)
      have "chain (heap sb) (bs0 ! m) (css0 ! m)"
        by (rule chain_frame[OF d0(7)[OF ml(1)] ]) (use dj fr in \<open>auto simp: sa_def\<close>)
      then show ?thesis using False by (simp add: s'_def)
    qed
  next
    fix m x assume "m < length (bs0[j := None])" and x: "x \<in> set (?css0' ! m)"
    then have ml: "m < length bs0" "m < length css0" using d0(5) by simp_all
    have mj: "m \<noteq> j"
    proof
      assume "m = j"
      with x jc show False by simp
    qed
    then have xm: "x \<in> set (css0 ! m)" using x by simp
    have "in_bucket (heap s') (d_type s') (d_ht0 s') m x = in_bucket (heap s) (d_type s) (d_ht0 s) m x"
    proof -
      have "d_type s' = d_type s" by (simp add: s'_def sb_fields)
      moreover have "in_bucket (heap s') (d_type s) (d_ht0 s') m x = in_bucket (heap s) (d_type s) (d_ht0 s) m x"
        by (rule in_bucket_cong) (simp_all add: s'_def keys t0'_def sb_t0)
      ultimately show ?thesis by simp
    qed
    then show "in_bucket (heap s') (d_type s') (d_ht0 s') m x" using d0(8)[OF ml(1) xm] by simp
  qed
  have i1: "table_ok (heap s') (d_type s') (d_ht1 s') css1'"
    using ok1 by (simp add: s'_def sa_def sb_fields)
  have set0: "set (concat ?css0') = set (concat css0) - set as"
    unfolding as_def by (rule concat_clear_update(3)[OF jc]) (use dist in simp)
  have dis0: "distinct (concat ?css0')"
    by (rule concat_clear_update(2)[OF jc]) (use dist in simp)
  have len0: "length (concat ?css0') = length (concat css0) - length as"
    unfolding as_def by (rule concat_clear_update(1)[OF jc])
  have i2: "distinct (concat ?css0' @ concat css1')"
    using dis0 di set0 se dist by auto
  have sets: "set (concat ?css0' @ concat css1') = set (concat css0 @ concat css1)"
    using set0 se as_sub by auto
  have i3: "keys_unique (heap s') (d_type s') (concat ?css0' @ concat css1')"
  proof -
    have "keys_unique (heap s') (d_type s) (concat ?css0' @ concat css1')"
      by (rule keys_unique_cong[OF ku]) (use sets in \<open>simp_all add: s'_def keys\<close>)
    then show ?thesis by (simp add: s'_def sb_fields)
  qed
  have i4: "length (concat ?css0') + length (concat css1') < 2 ^ 64"
    using len0 le as_len bound by simp
  have i5: "?css0' ! m = []" if "m < length ?css0'" "m < nat (d_rehashidx s')" for m
  proof -
    have mj: "m \<le> j" using that(2) by (simp add: s'_def)
    have ml: "m < length css0" using that(1) by simp
    show ?thesis
    proof (cases "m = j")
      case True
      then show ?thesis using jc by simp
    next
      case False
      then have mlt: "m < j" using mj by simp
      show ?thesis
      proof (cases "m < ?r")
        case True
        then show ?thesis using emp[OF ml] False by simp
      next
        case ge: False
        then have "bs0 ! m = None" using j(5) mlt by simp
        moreover have "chain (heap s) (bs0 ! m) (css0 ! m)" using d0(7) ml d0(5) by simp
        ultimately show ?thesis using False by simp
      qed
    qed
  qed
  have inv': "dict_inv s' ?css0' css1'"
    unfolding dict_inv_def
    using i0 i1 i2 i3 i4 i5 tb by (simp add: s'_def t0'_def)
  have sz: "dictSize s' = dictSize s"
    using sum by (simp add: dictSize_def s'_def t0'_def sa_def)
  have kv': "\<forall>a. map_option (\<lambda>e. (e_key e, e_val e)) (heap s' a)
          = map_option (\<lambda>e. (e_key e, e_val e)) (heap s a)"
    using kv by (simp add: s'_def sa_def)
  have as_ne: "as \<noteq> []" using j(4) d0(7)[OF jl] by (auto simp: as_def)
  have dec: "length (concat ?css0') < length (concat css0)"
    using len0 as_ne as_len by (cases as) simp_all
  have f: "d_rehashidx s' \<noteq> -1" "d_type s' = d_type s" "d_iterators s' = d_iterators s"
    by (simp_all add: s'_def sb_fields)
  have al0': "ht_table (d_ht0 s') \<noteq> None" by (simp add: s'_def t0'_def)
  show ?thesis
    using loop inv' f sz sets kv' dec al0' by blast
qed

subsection \<open>A call of dictRehash\<close>

lemma preserved_refl: "preserved s as s as"
  by (simp add: preserved_def)

lemma preserved_trans:
  assumes "preserved s as s1 as1" "preserved s1 as1 s2 as2"
  shows "preserved s as s2 as2"
  using assms by (simp add: preserved_def)

lemma rehash_bucket_preserved:
  fixes s :: "('k, 'v) world"
  assumes "dict_inv s css0 css1" "d_rehashidx s \<noteq> -1" "ht_used (d_ht0 s) \<noteq> 0"
  shows "\<exists>s' css0' css1'.
      (\<forall>n. n \<noteq> 0 \<longrightarrow> dictRehash_loop s n = dictRehash_loop s' (n - 1)) \<and>
      dict_inv s' css0' css1' \<and> d_rehashidx s' \<noteq> -1 \<and>
      preserved s (concat css0 @ concat css1) s' (concat css0' @ concat css1') \<and>
      length (concat css0') < length (concat css0) \<and> ht_table (d_ht0 s') \<noteq> None"
  using rehash_bucket[OF assms] unfolding preserved_def by blast

lemma rehash_complete:
  fixes s :: "('k, 'v) world"
  assumes inv: "dict_inv s css0 css1" and reh: "d_rehashidx s \<noteq> -1"
    and used: "ht_used (d_ht0 s) = 0" and n: "n \<noteq> 0"
  defines "s' \<equiv> s\<lparr>d_ht0 := d_ht1 s, d_ht1 := dictReset, d_rehashidx := -1\<rparr>"
  shows "dictRehash_loop s n = Some (Inr (Some 0, s'))"
    and "dict_inv s' css1 []"
    and "preserved s (concat css0 @ concat css1) s' (concat css1 @ concat [])"
    and "ht_table (d_ht0 s') \<noteq> None"
proof -
  from dict_inv_rehashingD[OF inv reh] obtain a0 bs0 a1 bs1 where
    t0: "table_ok (heap s) (d_type s) (d_ht0 s) css0" and
    t1: "table_ok (heap s) (d_type s) (d_ht1 s) css1" and
    dist: "distinct (concat css0 @ concat css1)" and
    ku: "keys_unique (heap s) (d_type s) (concat css0 @ concat css1)" and
    bound: "length (concat css0) + length (concat css1) < 2 ^ 64" and
    al0: "ht_table (d_ht0 s) = Some (a0, bs0)" and al1: "ht_table (d_ht1 s) = Some (a1, bs1)"
    by blast
  show "ht_table (d_ht0 s') \<noteq> None" using al1 by (simp add: s'_def)
  show "dictRehash_loop s n = Some (Inr (Some 0, s'))"
    using n used by (subst dictRehash_loop.simps) (simp add: s'_def)
  have e0: "concat css0 = []" using table_okD(6)[OF t0 al0] used by simp
  have ku': "keys_unique (heap s) (d_type s) (concat css1)" using ku e0 by simp
  show "dict_inv s' css1 []"
    unfolding dict_inv_def
    using t1 dist ku' bound e0 by (simp add: s'_def table_ok_reset)
  have "set (concat css1 @ concat []) = set (concat css0 @ concat css1)"
    unfolding e0 by simp
  then show "preserved s (concat css0 @ concat css1) s' (concat css1 @ concat [])"
    using used unfolding preserved_def by (simp add: s'_def dictSize_def dictReset_def)
qed

lemma dictRehash_loop_correct:
  fixes s :: "('k, 'v) world"
  assumes "dict_inv s css0 css1" "d_rehashidx s \<noteq> -1"
  shows "\<exists>r s' css0' css1'. dictRehash_loop s (int n) = Some (Inr (r, s')) \<and>
      dict_inv s' css0' css1' \<and>
      preserved s (concat css0 @ concat css1) s' (concat css0' @ concat css1') \<and>
      (r = Some 0 \<and> d_rehashidx s' = -1 \<or> r = None \<and> d_rehashidx s' \<noteq> -1) \<and>
      (d_rehashidx s' \<noteq> -1 \<longrightarrow> length (concat css0') + n \<le> length (concat css0)) \<and>
      ht_table (d_ht0 s') \<noteq> None"
  using assms
proof (induction n arbitrary: s css0 css1)
  case 0
  have "dictRehash_loop s 0 = Some (Inr (None, s))" by (subst dictRehash_loop.simps) simp
  moreover have "ht_table (d_ht0 s) \<noteq> None" using dict_inv_rehashingD[OF 0] by auto
  ultimately show ?case
    using 0 preserved_refl
    by (intro exI[of _ None] exI[of _ s] exI[of _ css0] exI[of _ css1]) simp
next
  case (Suc n)
  show ?case
  proof (cases "ht_used (d_ht0 s) = 0")
    case True
    have n0: "int (Suc n) \<noteq> 0" by simp
    note c = rehash_complete[OF Suc.prems True n0]
    show ?thesis
      by (intro exI[of _ "Some 0"] exI[of _ "s\<lparr>d_ht0 := d_ht1 s, d_ht1 := dictReset, d_rehashidx := -1\<rparr>"]
          exI[of _ css1] exI[of _ "[]"]) (use c in simp)
  next
    case False
    from rehash_bucket_preserved[OF Suc.prems False]
    obtain s1 c0 c1 where
      l: "\<forall>m. m \<noteq> 0 \<longrightarrow> dictRehash_loop s m = dictRehash_loop s1 (m - 1)" and
      i1: "dict_inv s1 c0 c1" and r1: "d_rehashidx s1 \<noteq> -1" and
      p1: "preserved s (concat css0 @ concat css1) s1 (concat c0 @ concat c1)" and
      dec: "length (concat c0) < length (concat css0)"
      by blast
    have eq: "dictRehash_loop s (int (Suc n)) = dictRehash_loop s1 (int n)"
      using l[rule_format, of "int (Suc n)"] by simp
    from Suc.IH[OF i1 r1]
    obtain r s' c0' c1' where
      a: "dictRehash_loop s1 (int n) = Some (Inr (r, s'))" and b: "dict_inv s' c0' c1'" and
      c: "preserved s1 (concat c0 @ concat c1) s' (concat c0' @ concat c1')" and
      d: "r = Some 0 \<and> d_rehashidx s' = -1 \<or> r = None \<and> d_rehashidx s' \<noteq> -1" and
      e: "d_rehashidx s' \<noteq> -1 \<longrightarrow> length (concat c0') + n \<le> length (concat c0)" and
      f: "ht_table (d_ht0 s') \<noteq> None"
      by blast
    have a': "dictRehash_loop s (int (Suc n)) = Some (Inr (r, s'))" using eq a by simp
    have c': "preserved s (concat css0 @ concat css1) s' (concat c0' @ concat c1')"
      by (rule preserved_trans[OF p1 c])
    have e': "d_rehashidx s' \<noteq> -1 \<longrightarrow> length (concat c0') + Suc n \<le> length (concat css0)"
      using e dec by auto
    show ?thesis
      by (intro exI[of _ r] exI[of _ s'] exI[of _ c0'] exI[of _ c1']) (use a' b c' d e' f in simp)
  qed
qed

lemma dictRehash_correct:
  fixes s :: "('k, 'v) world"
  assumes "dict_inv s css0 css1" "0 \<le> n"
  shows "\<exists>r s' css0' css1'. dictRehash s n = Some (Inr (r, s')) \<and>
      dict_inv s' css0' css1' \<and>
      preserved s (concat css0 @ concat css1) s' (concat css0' @ concat css1') \<and>
      (r = Some 0 \<and> d_rehashidx s' = -1 \<or> r = None \<and> d_rehashidx s' \<noteq> -1) \<and>
      (d_rehashidx s' \<noteq> -1 \<longrightarrow> length (concat css0') + nat n \<le> length (concat css0)) \<and>
      (ht_table (d_ht0 s) \<noteq> None \<longrightarrow> ht_table (d_ht0 s') \<noteq> None)"
proof (cases "d_rehashidx s = -1")
  case True
  then have "dictRehash s n = Some (Inr (Some 0, s))"
    by (simp add: dictRehash_def dictIsRehashing_def ret_def)
  then show ?thesis
    using assms(1) True preserved_refl
    by (intro exI[of _ "Some 0"] exI[of _ s] exI[of _ css0] exI[of _ css1]) simp
next
  case False
  have eq: "dictRehash s n = dictRehash_loop s (int (nat n))"
    using False assms(2) by (simp add: dictRehash_def dictIsRehashing_def)
  from dictRehash_loop_correct[OF assms(1) False, of "nat n"]
  obtain r s' c0 c1 where
    a: "dictRehash_loop s (int (nat n)) = Some (Inr (r, s'))" and b: "dict_inv s' c0 c1" and
    c: "preserved s (concat css0 @ concat css1) s' (concat c0 @ concat c1)" and
    d: "r = Some 0 \<and> d_rehashidx s' = -1 \<or> r = None \<and> d_rehashidx s' \<noteq> -1" and
    e: "d_rehashidx s' \<noteq> -1 \<longrightarrow> length (concat c0) + nat n \<le> length (concat css0)" and
    f: "ht_table (d_ht0 s') \<noteq> None"
    by blast
  show ?thesis
    by (intro exI[of _ r] exI[of _ s'] exI[of _ c0] exI[of _ c1]) (use eq a b c d e f in simp)
qed

lemma dictRehashStep_correct:
  fixes s :: "('k, 'v) world"
  assumes "dict_inv s css0 css1"
  shows "\<exists>s' css0' css1'. dictRehashStep s = Some (Inr s') \<and>
      dict_inv s' css0' css1' \<and>
      preserved s (concat css0 @ concat css1) s' (concat css0' @ concat css1') \<and>
      (ht_table (d_ht0 s) \<noteq> None \<longrightarrow> ht_table (d_ht0 s') \<noteq> None)"
proof (cases "d_iterators s = 0")
  case True
  have "(0::int) \<le> 1" by simp
  from dictRehash_correct[OF assms this]
  obtain r s' c0 c1 where a: "dictRehash s 1 = Some (Inr (r, s'))" and b: "dict_inv s' c0 c1" and
    c: "preserved s (concat css0 @ concat css1) s' (concat c0 @ concat c1)" and
    d: "ht_table (d_ht0 s) \<noteq> None \<longrightarrow> ht_table (d_ht0 s') \<noteq> None"
    by blast
  have "dictRehashStep s = Some (Inr s')"
    using True a by (simp add: dictRehashStep_def bnd_def ret_def)
  then show ?thesis using b c d by blast
next
  case False
  then have "dictRehashStep s = Some (Inr s)" by (simp add: dictRehashStep_def ret_def)
  then show ?thesis using assms preserved_refl by blast
qed

subsection \<open>Lookups before and after\<close>

lemma table_lookup_correct:
  fixes s :: "('k, 'v) world"
  assumes ok: "table_ok (heap s) (d_type s) (ht s t) css"
    and al: "ht_table (ht s t) = Some (a, bs)"
    and cok: "compare_ok (d_type s)"
  shows "\<exists>r. table_lookup s k (dictHashKey s k) t = Some (Inr r) \<and>
      lookup_spec (heap s) (d_type s) (concat css) k r"
proof -
  note D = table_okD[OF ok al]
  let ?h = "dictHashKey s k"
  let ?i = "unat (bucket_index ?h (ht s t))"
  let ?P = "key_matches (heap s) (d_type s) k"
  have i: "?i < length bs" using bucket_index_less[OF D(1) D(3)] D(4) by simp
  have get: "table_get (ht s t) ?i = Inr (bs ! ?i)" using al i by (simp add: table_get_def)
  have run: "table_lookup s k ?h t = Some (Inr (List.find ?P (css ! ?i)))"
    unfolding table_lookup_def get using chain_lookup_chain[OF D(7)[OF i] ] by simp
  have spec: "lookup_spec (heap s) (d_type s) (concat css) k (List.find ?P (css ! ?i))"
  proof (cases "List.find ?P (css ! ?i)")
    case None
    have "\<not> ?P x" if x: "x \<in> set (concat css)" for x
    proof
      assume m: "?P x"
      from x obtain cs where cs: "cs \<in> set css" "x \<in> set cs" by auto
      then obtain j where j: "j < length css" "css ! j = cs" by (auto simp: in_set_conv_nth)
      have jb: "j < length bs" using j D(5) by simp
      have ib: "in_bucket (heap s) (d_type s) (ht s t) j x" using D(8)[OF jb] cs j by simp
      from m obtain e where e: "heap s x = Some e" "compare_keys (d_type s) k (e_key e)"
        by (auto simp: key_matches_def split: option.splits)
      have "hashFunction (d_type s) k = hashFunction (d_type s) (e_key e)"
        using cok e(2) unfolding compare_ok_def by blast
      then have "j = ?i" using ib e(1) by (simp add: in_bucket_def dictHashKey_def)
      then have "x \<in> set (css ! ?i)" using cs j by simp
      then show False using None m by (simp add: find_None_iff)
    qed
    then show ?thesis using None by (simp add: lookup_spec_def)
  next
    case (Some x)
    then have "x \<in> set (css ! ?i)" "?P x" by (auto simp: find_Some_iff)
    moreover have "?i < length css" using i D(5) by simp
    ultimately have "x \<in> set (concat css)" "?P x" by (auto intro: nth_mem)
    then show ?thesis using Some by (simp add: lookup_spec_def)
  qed
  show ?thesis using run spec by blast
qed

lemma lookup_tables_correct:
  fixes s :: "('k, 'v) world"
  assumes inv: "dict_inv s css0 css1" and cok: "compare_ok (d_type s)"
    and al0: "ht_table (d_ht0 s) \<noteq> None"
  shows "\<exists>r. lookup_tables s k = Some (Inr r) \<and>
      lookup_spec (heap s) (d_type s) (concat css0 @ concat css1) k r"
proof -
  from al0 obtain a0 bs0 where t0: "ht_table (ht s 0) = Some (a0, bs0)" by (auto simp: ht_def)
  have ok0: "table_ok (heap s) (d_type s) (ht s 0) css0"
    using inv by (simp add: dict_inv_def ht_def)
  have ok1: "table_ok (heap s) (d_type s) (ht s 1) css1"
    using inv by (simp add: dict_inv_def ht_def)
  from table_lookup_correct[OF ok0 t0 cok, of k]
  obtain r0 where r0: "table_lookup s k (dictHashKey s k) 0 = Some (Inr r0)"
    "lookup_spec (heap s) (d_type s) (concat css0) k r0" by blast
  show ?thesis
  proof (cases r0)
    case (Some x)
    then have "lookup_tables s k = Some (Inr (Some x))"
      using r0(1) by (simp add: lookup_tables_def bnd_def ret_def)
    moreover have "lookup_spec (heap s) (d_type s) (concat css0 @ concat css1) k (Some x)"
      using r0(2) Some by (simp add: lookup_spec_def)
    ultimately show ?thesis by blast
  next
    case None
    show ?thesis
    proof (cases "dictIsRehashing s")
      case False
      then have "d_ht1 s = dictReset" using inv by (simp add: dict_inv_def dictIsRehashing_def)
      then have "css1 = []" using ok1 by (simp add: table_ok_def ht_def dictReset_def)
      then have "lookup_spec (heap s) (d_type s) (concat css0 @ concat css1) k None"
        using r0(2) None by simp
      moreover have "lookup_tables s k = Some (Inr None)"
        using r0(1) None False by (simp add: lookup_tables_def bnd_def ret_def)
      ultimately show ?thesis by blast
    next
      case True
      then have "ht_table (d_ht1 s) \<noteq> None"
        using inv by (simp add: dict_inv_def dictIsRehashing_def)
      then obtain a1 bs1 where t1: "ht_table (ht s 1) = Some (a1, bs1)" by (auto simp: ht_def)
      from table_lookup_correct[OF ok1 t1 cok, of k]
      obtain r1 where r1: "table_lookup s k (dictHashKey s k) 1 = Some (Inr r1)"
        "lookup_spec (heap s) (d_type s) (concat css1) k r1" by blast
      have "lookup_tables s k = Some (Inr r1)"
        using r0(1) r1(1) None True by (simp add: lookup_tables_def bnd_def ret_def)
      moreover have "lookup_spec (heap s) (d_type s) (concat css0 @ concat css1) k r1"
        using r0(2) r1(2) None by (auto simp: lookup_spec_def split: option.splits)
      ultimately show ?thesis by blast
    qed
  qed
qed

lemma dictFind_tables:
  fixes s :: "('k, 'v) world" and k :: 'k
  shows "dictFind s k =
     (if ht_size (d_ht0 s) = 0 then ret (None, s)
      else bnd (if dictIsRehashing s then dictRehashStep s else ret s) (\<lambda>s1.
             bnd (lookup_tables s1 k) (\<lambda>r. ret (r, s1))))"
proof -
  have "bnd (table_lookup s1 k (dictHashKey s1 k) 0) (\<lambda>r0.
          case r0 of
            Some a \<Rightarrow> ret (Some a, s1)
          | None \<Rightarrow>
              if \<not> dictIsRehashing s1 then ret (None, s1)
              else bnd (table_lookup s1 k (dictHashKey s1 k) 1) (\<lambda>r1. ret (r1, s1)))
      = bnd (lookup_tables s1 k) (\<lambda>r. ret (r, s1))" for s1 :: "('k, 'v) world"
    by (auto simp: lookup_tables_def bnd_def ret_def split: option.splits sum.splits)
  then show ?thesis by (simp add: dictFind_def Let_def)
qed

lemma key_matches_preserved:
  assumes "preserved s as s' as'"
  shows "key_matches (heap s') (d_type s') k a = key_matches (heap s) (d_type s) k a"
proof -
  have ty: "d_type s' = d_type s" using assms by (simp add: preserved_def)
  have "map_option (\<lambda>e. (e_key e, e_val e)) (heap s' a)
      = map_option (\<lambda>e. (e_key e, e_val e)) (heap s a)"
    using assms by (simp add: preserved_def)
  then show ?thesis unfolding key_matches_def ty
    by (cases "heap s' a"; cases "heap s a") auto
qed

lemma lookup_spec_preserved:
  assumes "preserved s as s' as'"
  shows "lookup_spec (heap s') (d_type s') as' k r = lookup_spec (heap s) (d_type s) as k r"
proof -
  have "set as' = set as" using assms by (simp add: preserved_def)
  then show ?thesis
    unfolding lookup_spec_def by (simp add: key_matches_preserved[OF assms] split: option.splits)
qed

lemma dictGetVal_preserved:
  assumes "preserved s as s' as'"
  shows "dictGetVal s' a = dictGetVal s a"
proof -
  have "map_option (\<lambda>e. (e_key e, e_val e)) (heap s' a)
      = map_option (\<lambda>e. (e_key e, e_val e)) (heap s a)"
    using assms by (simp add: preserved_def)
  then show ?thesis unfolding dictGetVal_def
    by (cases "heap s' a"; cases "heap s a") auto
qed

lemma dict_inv_empty:
  assumes inv: "dict_inv s css0 css1" and sz: "ht_size (d_ht0 s) = 0"
  shows "concat css0 @ concat css1 = []"
proof -
  have ok0: "table_ok (heap s) (d_type s) (d_ht0 s) css0" using inv by (simp add: dict_inv_def)
  have ok1: "table_ok (heap s) (d_type s) (d_ht1 s) css1" using inv by (simp add: dict_inv_def)
  have n0: "ht_table (d_ht0 s) = None"
    using ok0 sz by (cases "ht_table (d_ht0 s)") (auto simp: table_ok_def)
  then have c0: "css0 = []" using ok0 by (simp add: table_ok_def)
  have "d_rehashidx s = -1" using inv n0 by (auto simp: dict_inv_def split: if_splits)
  then have "d_ht1 s = dictReset" using inv by (simp add: dict_inv_def)
  then have "css1 = []" using ok1 by (simp add: table_ok_def dictReset_def)
  then show ?thesis using c0 by simp
qed

lemma dictFind_correct:
  fixes s :: "('k, 'v) world"
  assumes inv: "dict_inv s css0 css1" and cok: "compare_ok (d_type s)"
  shows "\<exists>r s1 c0 c1. dictFind s k = Some (Inr (r, s1)) \<and> dict_inv s1 c0 c1 \<and>
      preserved s (concat css0 @ concat css1) s1 (concat c0 @ concat c1) \<and>
      lookup_spec (heap s) (d_type s) (concat css0 @ concat css1) k r"
proof (cases "ht_size (d_ht0 s) = 0")
  case True
  have "dictFind s k = Some (Inr (None, s))" using True by (simp add: dictFind_def ret_def)
  moreover have "lookup_spec (heap s) (d_type s) (concat css0 @ concat css1) k None"
    unfolding dict_inv_empty[OF inv True] by (simp add: lookup_spec_def)
  ultimately show ?thesis using inv preserved_refl by blast
next
  case False
  have ok0: "table_ok (heap s) (d_type s) (d_ht0 s) css0" using inv by (simp add: dict_inv_def)
  have al0: "ht_table (d_ht0 s) \<noteq> None"
    using ok0 False by (cases "ht_table (d_ht0 s)") (auto simp: table_ok_def)
  have "\<exists>s1 c0 c1. (if dictIsRehashing s then dictRehashStep s else ret s) = Some (Inr s1) \<and>
      dict_inv s1 c0 c1 \<and>
      preserved s (concat css0 @ concat css1) s1 (concat c0 @ concat c1) \<and>
      ht_table (d_ht0 s1) \<noteq> None"
  proof (cases "dictIsRehashing s")
    case True
    then show ?thesis using dictRehashStep_correct[OF inv] al0 by auto
  next
    case False
    then show ?thesis using inv al0 preserved_refl by (auto simp: ret_def)
  qed
  then obtain s1 c0 c1 where
    st: "(if dictIsRehashing s then dictRehashStep s else ret s) = Some (Inr s1)" and
    i1: "dict_inv s1 c0 c1" and
    p1: "preserved s (concat css0 @ concat css1) s1 (concat c0 @ concat c1)" and
    a1: "ht_table (d_ht0 s1) \<noteq> None"
    by blast
  have cok1: "compare_ok (d_type s1)" using cok p1 by (simp add: preserved_def)
  from lookup_tables_correct[OF i1 cok1 a1, of k]
  obtain r where r: "lookup_tables s1 k = Some (Inr r)"
    "lookup_spec (heap s1) (d_type s1) (concat c0 @ concat c1) k r" by blast
  have "dictFind s k = Some (Inr (r, s1))"
    unfolding dictFind_tables using False st r(1) by (simp add: bnd_def ret_def)
  moreover have "lookup_spec (heap s) (d_type s) (concat css0 @ concat css1) k r"
    using r(2) lookup_spec_preserved[OF p1] by simp
  ultimately show ?thesis using i1 p1 by blast
qed

lemma lookup_spec_unique:
  assumes cok: "compare_ok ty" and ku: "keys_unique hp ty as"
    and r: "lookup_spec hp ty as k r" and r': "lookup_spec hp ty as k r'"
  shows "r = r'"
proof (cases r)
  case None
  then show ?thesis using r r' by (cases r') (auto simp: lookup_spec_def)
next
  case (Some a)
  show ?thesis
  proof (cases r')
    case None
    then show ?thesis using r r' Some by (auto simp: lookup_spec_def)
  next
    case b: (Some b)
    have a: "a \<in> set as" "key_matches hp ty k a" using r Some by (auto simp: lookup_spec_def)
    have b': "b \<in> set as" "key_matches hp ty k b" using r' b by (auto simp: lookup_spec_def)
    from a(2) obtain ea where ea: "hp a = Some ea" "compare_keys ty k (e_key ea)"
      by (auto simp: key_matches_def split: option.splits)
    from b'(2) obtain eb where eb: "hp b = Some eb" "compare_keys ty k (e_key eb)"
      by (auto simp: key_matches_def split: option.splits)
    have "compare_keys ty (e_key ea) k" using cok ea(2) unfolding compare_ok_def by blast
    then have "compare_keys ty (e_key ea) (e_key eb)"
      using cok eb(2) unfolding compare_ok_def by blast
    then have m: "key_matches hp ty (e_key ea) b" using eb(1) by (simp add: key_matches_def)
    have "a = b"
    proof (rule ccontr)
      assume "a \<noteq> b"
      then have "\<not> key_matches hp ty (e_key ea) b"
        using ku a(1) b'(1) ea(1) unfolding keys_unique_def by fastforce
      then show False using m by simp
    qed
    then show ?thesis using Some b by simp
  qed
qed

lemma rehash_calls_done:
  assumes "\<not> dictIsRehashing s"
  shows "rehash_calls m s = Some (Inr s)"
proof (induction m)
  case 0
  show ?case by (simp add: ret_def)
next
  case (Suc m)
  have "dictRehash s 1 = Some (Inr (Some 0, s))" using assms by (simp add: dictRehash_def ret_def)
  then show ?case using Suc by (simp add: bnd_def)
qed

lemma rehash_calls_correct:
  fixes s :: "('k, 'v) world"
  assumes "dict_inv s css0 css1"
  shows "\<exists>s' c0 c1. rehash_calls m s = Some (Inr s') \<and> dict_inv s' c0 c1 \<and>
      preserved s (concat css0 @ concat css1) s' (concat c0 @ concat c1) \<and>
      (length (concat css0) < m \<longrightarrow> \<not> dictIsRehashing s')"
  using assms
proof (induction m arbitrary: s css0 css1)
  case 0
  then show ?case using preserved_refl by (auto simp: ret_def)
next
  case (Suc m)
  have "(0::int) \<le> 1" by simp
  from dictRehash_correct[OF Suc.prems this]
  obtain r s1 c0 c1 where
    a: "dictRehash s 1 = Some (Inr (r, s1))" and b: "dict_inv s1 c0 c1" and
    c: "preserved s (concat css0 @ concat css1) s1 (concat c0 @ concat c1)" and
    e: "d_rehashidx s1 \<noteq> -1 \<longrightarrow> length (concat c0) + nat 1 \<le> length (concat css0)"
    by blast
  have eq: "rehash_calls (Suc m) s = rehash_calls m s1" using a by (simp add: bnd_def)
  show ?case
  proof (cases "dictIsRehashing s1")
    case False
    have "rehash_calls (Suc m) s = Some (Inr s1)" using eq rehash_calls_done[OF False] by simp
    then show ?thesis using b c False by blast
  next
    case True
    from Suc.IH[OF b]
    obtain s' c0' c1' where
      a': "rehash_calls m s1 = Some (Inr s')" and b': "dict_inv s' c0' c1'" and
      c': "preserved s1 (concat c0 @ concat c1) s' (concat c0' @ concat c1')" and
      d': "length (concat c0) < m \<longrightarrow> \<not> dictIsRehashing s'"
      by blast
    have "length (concat c0) < length (concat css0)"
      using e True by (simp add: dictIsRehashing_def)
    then have d: "length (concat css0) < Suc m \<longrightarrow> \<not> dictIsRehashing s'" using d' by simp
    have "rehash_calls (Suc m) s = Some (Inr s')" using eq a' by simp
    then show ?thesis using b' preserved_trans[OF c c'] d by blast
  qed
qed

lemma entry_in_heap:
  assumes inv: "dict_inv s css0 css1" and a: "a \<in> set (concat css0 @ concat css1)"
  shows "\<exists>ea. heap s a = Some ea"
proof -
  have ok0: "table_ok (heap s) (d_type s) (d_ht0 s) css0" using inv by (simp add: dict_inv_def)
  have ok1: "table_ok (heap s) (d_type s) (d_ht1 s) css1" using inv by (simp add: dict_inv_def)
  have *: "\<exists>ea. heap s a = Some ea"
    if ok: "table_ok (heap s) (d_type s) h css" and m: "a \<in> set (concat css)" for h css
  proof (cases "ht_table h")
    case None
    then show ?thesis using ok m by (simp add: table_ok_def)
  next
    case (Some p)
    obtain b bs where p: "p = (b, bs)" by (cases p)
    note D = table_okD[OF ok Some[unfolded p] ]
    from m obtain cs where cs: "cs \<in> set css" "a \<in> set cs" by auto
    then obtain j where j: "j < length css" "css ! j = cs" by (auto simp: in_set_conv_nth)
    have "in_bucket (heap s) (d_type s) h j a" using D(8)[of j a] j cs D(5) by simp
    then show ?thesis by (auto simp: in_bucket_def split: option.splits)
  qed
  show ?thesis using a *[OF ok0] *[OF ok1] by auto
qed

text \<open>
  Claim C3. Take a well-formed dict \<open>s\<close> (invariant \<open>dict_inv\<close>, with a key comparison
  that is an equivalence respecting the hash), in particular one in the middle of a
  rehash, and call \<^verbatim>\<open>dictRehash(d, 1)\<close> \<open>m\<close> times, for any \<open>m\<close>. All the calls return
  without a fault; the total size \<^verbatim>\<open>ht[0].used + ht[1].used\<close> afterwards is the one
  before; once \<open>m\<close> exceeds the number of entries left in table 0 the migration is
  complete; for every key \<open>k\<close>, \<^verbatim>\<open>dictFind\<close> returns the same entry after the calls as
  before them, holding the same value; and every one of the entries of the dict is
  found under its key afterwards, with its value.
\<close>

theorem rehash_preserves_find:
  fixes s :: "('k, 'v) world"
  assumes inv: "dict_inv s css0 css1" and cok: "compare_ok (d_type s)"
  shows "\<exists>s'. rehash_calls m s = Some (Inr s') \<and> dictSize s' = dictSize s \<and>
      (length (concat css0) < m \<longrightarrow> \<not> dictIsRehashing s') \<and>
      (\<forall>k. \<exists>e s1 s2. dictFind s k = Some (Inr (e, s1)) \<and> dictFind s' k = Some (Inr (e, s2)) \<and>
         (\<forall>a. dictGetVal s2 a = dictGetVal s1 a)) \<and>
      (\<forall>a \<in> set (concat css0 @ concat css1). \<exists>ea s2. heap s a = Some ea \<and>
         dictFind s' (e_key ea) = Some (Inr (Some a, s2)) \<and> dictGetVal s2 a = dictGetVal s a)"
proof -
  let ?as = "concat css0 @ concat css1"
  from rehash_calls_correct[OF inv, of m]
  obtain s' c0 c1 where
    run: "rehash_calls m s = Some (Inr s')" and inv': "dict_inv s' c0 c1" and
    p: "preserved s ?as s' (concat c0 @ concat c1)" and
    fin: "length (concat css0) < m \<longrightarrow> \<not> dictIsRehashing s'"
    by blast
  have cok': "compare_ok (d_type s')" using cok p by (simp add: preserved_def)
  have ku: "keys_unique (heap s) (d_type s) ?as" using inv by (simp add: dict_inv_def)
  have after: "\<exists>r' s2. dictFind s' k = Some (Inr (r', s2)) \<and>
      lookup_spec (heap s) (d_type s) ?as k r' \<and> (\<forall>a. dictGetVal s2 a = dictGetVal s a)" for k
  proof -
    from dictFind_correct[OF inv' cok', of k]
    obtain r' s2 e0 e1 where
      f2: "dictFind s' k = Some (Inr (r', s2))" and
      p2: "preserved s' (concat c0 @ concat c1) s2 (concat e0 @ concat e1)" and
      l2: "lookup_spec (heap s') (d_type s') (concat c0 @ concat c1) k r'"
      by blast
    have "lookup_spec (heap s) (d_type s) ?as k r'" using l2 lookup_spec_preserved[OF p] by simp
    moreover have "dictGetVal s2 a = dictGetVal s a" for a
      using dictGetVal_preserved[OF p2] dictGetVal_preserved[OF p] by simp
    ultimately show ?thesis using f2 by blast
  qed
  have finds: "\<exists>e s1 s2. dictFind s k = Some (Inr (e, s1)) \<and> dictFind s' k = Some (Inr (e, s2)) \<and>
         (\<forall>a. dictGetVal s2 a = dictGetVal s1 a)" for k
  proof -
    from dictFind_correct[OF inv cok, of k]
    obtain r s1 d0 d1 where
      f1: "dictFind s k = Some (Inr (r, s1))" and
      p1: "preserved s ?as s1 (concat d0 @ concat d1)" and
      l1: "lookup_spec (heap s) (d_type s) ?as k r"
      by blast
    from after[of k] obtain r' s2 where
      f2: "dictFind s' k = Some (Inr (r', s2))" and
      l2: "lookup_spec (heap s) (d_type s) ?as k r'" and
      v2: "\<forall>a. dictGetVal s2 a = dictGetVal s a"
      by blast
    have "r' = r" using lookup_spec_unique[OF cok ku l2 l1] .
    moreover have "dictGetVal s2 a = dictGetVal s1 a" for a
      using dictGetVal_preserved[OF p1] v2 by simp
    ultimately show ?thesis using f1 f2 by blast
  qed
  have entries: "\<exists>ea s2. heap s a = Some ea \<and>
      dictFind s' (e_key ea) = Some (Inr (Some a, s2)) \<and> dictGetVal s2 a = dictGetVal s a"
    if a: "a \<in> set ?as" for a
  proof -
    from entry_in_heap[OF inv a] obtain ea where ea: "heap s a = Some ea" by blast
    have "compare_keys (d_type s) (e_key ea) (e_key ea)" using cok unfolding compare_ok_def by blast
    then have l1: "lookup_spec (heap s) (d_type s) ?as (e_key ea) (Some a)"
      using a ea unfolding lookup_spec_def key_matches_def by simp
    from after[of "e_key ea"] obtain r' s2 where
      f2: "dictFind s' (e_key ea) = Some (Inr (r', s2))" and
      l2: "lookup_spec (heap s) (d_type s) ?as (e_key ea) r'" and
      v2: "\<forall>a. dictGetVal s2 a = dictGetVal s a"
      by blast
    have "r' = Some a" using lookup_spec_unique[OF cok ku l2 l1] .
    then show ?thesis using ea f2 v2 by blast
  qed
  have sz: "dictSize s' = dictSize s" using p by (simp add: preserved_def)
  show ?thesis
    by (intro exI[of _ s'] conjI allI ballI) (use run sz fin finds entries in blast)+
qed

lemma three_keys_rehashing_inv:
  "dict_inv three_keys_rehashing [ [], [2, 1], [3], [] ] [ [], [], [], [], [], [], [], [] ]"
  unfolding three_keys_rehashing_eq dict_inv_def
  apply (intro conjI)
       apply (simp add: table_ok_def All_less_Suc in_bucket_def bucket_index_def identityType_def)
      apply (simp add: table_ok_def All_less_Suc)
     apply simp
    apply (simp add: keys_unique_def key_matches_def compare_keys_def identityType_def)
   apply simp
  apply simp
  done

lemma identity_compare_ok: "compare_ok identityType"
  by (simp add: compare_ok_def compare_keys_def identityType_def)

text \<open>
  The theorem of C3 on the dict with keys 1, 5 and 2 at the start of its rehash from 4
  to 8 buckets: after four calls the migration is over, the size is 3 and key 5 is
  found in the entry it had, with value 50.
\<close>

theorem rehash_preserves_find_witness:
  "dict_inv three_keys_rehashing [ [], [2, 1], [3], [] ] [ [], [], [], [], [], [], [], [] ] \<and>
   compare_ok (d_type three_keys_rehashing) \<and>
   (\<exists>s'. rehash_calls 4 three_keys_rehashing = Some (Inr s') \<and> dictSize s' = 3 \<and>
      \<not> dictIsRehashing s' \<and>
      (\<exists>s2. dictFind s' 5 = Some (Inr (Some 2, s2)) \<and> dictGetVal s2 2 = Inr 50))"
proof -
  let ?s = three_keys_rehashing
  have cok: "compare_ok (d_type ?s)"
    using identity_compare_ok by (simp add: three_keys_rehashing_eq)
  have sz: "dictSize ?s = 3" by (simp add: three_keys_rehashing_eq dictSize_def)
  have hp: "heap ?s 2 = Some \<lparr>e_key = 5, e_val = Some 50, e_next = Some 1\<rparr>"
    by (simp add: three_keys_rehashing_eq)
  have v: "dictGetVal ?s 2 = Inr 50" by (simp add: dictGetVal_def hp)
  from rehash_preserves_find[OF three_keys_rehashing_inv cok, of 4]
  obtain s' where
    run: "rehash_calls 4 ?s = Some (Inr s')" and size: "dictSize s' = dictSize ?s" and
    fin: "\<not> dictIsRehashing s'" and
    ent: "\<forall>a \<in> set (concat [ [], [2, 1], [3], [] ] @ concat [ [], [], [], [], [], [], [], [] ]).
       \<exists>ea s2. heap ?s a = Some ea \<and>
         dictFind s' (e_key ea) = Some (Inr (Some a, s2)) \<and> dictGetVal s2 a = dictGetVal ?s a"
    by auto
  from ent have "\<exists>ea s2. heap ?s 2 = Some ea \<and>
         dictFind s' (e_key ea) = Some (Inr (Some 2, s2)) \<and> dictGetVal s2 2 = dictGetVal ?s 2"
    by simp
  then obtain s2 where "dictFind s' 5 = Some (Inr (Some 2, s2))" "dictGetVal s2 2 = Inr 50"
    using hp v by auto
  then show ?thesis using three_keys_rehashing_inv cok run size sz fin by auto
qed


section \<open>C4: the result of dictRehash\<close>

text \<open>
  Claim C4 fails on the code. On the dict at the start of a rehash, \<^verbatim>\<open>dictRehash(d, 1)\<close>
  moves bucket 1 (two entries), leaves one entry in table 0, and ends without executing
  a \<^verbatim>\<open>return\<close> statement: there is no return value.
\<close>

theorem dictRehash_no_return_value:
  "map_option (map_sum id (\<lambda>(r, s). (r, d_rehashidx s, ht_used (d_ht0 s), ht_used (d_ht1 s))))
     (dictRehash three_keys_rehashing 1)
   = Some (Inr (None, 2, 1, 2))"
  unfolding three_keys_rehashing_eq
  by (simp add: dictRehash_def dictRehash_loop.simps dictRehash_move.simps eval_defs)


section \<open>C5: completeness of the cursor scan\<close>

lemma replicate4: "replicate 4 x = [x, x, x, x]"
  by (simp add: eval_nat_numeral)

lemma sixteen_resize_is_expand: "dictResize sixteen_buckets = dictExpand sixteen_buckets 4"
  by (simp add: dictResize_def sixteen_buckets_def eval_defs)

lemma sixteen_resized:
  "dictExpand sixteen_buckets 4 =
     (DICT_OK, sixteen_buckets
        \<lparr>alloc_count := 1,
         d_ht1 := \<lparr>ht_table = Some (100, [None, None, None, None]),
                   ht_size = 4, ht_sizemask = 3, ht_used = 0\<rparr>,
         d_rehashidx := 0\<rparr>)"
  by (simp add: dictExpand_def dictNextPower_def sixteen_buckets_def eval_defs replicate4)

lemmas scan_defs = dictScan_def dictSize_def dictScan_emit.simps dictScan_expansions.simps
  eval_defs

lemma scan_before_0: "dictScan sixteen_buckets 0 = Some (Inr (8, []))"
  apply (simp add: sixteen_buckets_def scan_defs)
  apply code_simp
  done

lemma scan_before_8: "dictScan sixteen_buckets 8 = Some (Inr (4, []))"
  apply (simp add: sixteen_buckets_def scan_defs)
  apply code_simp
  done

lemma scan_before_4: "dictScan sixteen_buckets 4 = Some (Inr (12, []))"
  apply (simp add: sixteen_buckets_def scan_defs)
  apply code_simp
  done

lemma scan_before_12: "dictScan sixteen_buckets 12 = Some (Inr (2, []))"
  apply (simp add: sixteen_buckets_def scan_defs)
  apply code_simp
  done

lemma scan_before_2: "dictScan sixteen_buckets 2 = Some (Inr (10, []))"
  apply (simp add: sixteen_buckets_def scan_defs)
  apply code_simp
  done

lemma scan_after_10: "dictScan (snd (dictExpand sixteen_buckets 4)) 10 = Some (Inr (1, []))"
  unfolding sixteen_resized
  apply (simp add: sixteen_buckets_def scan_defs)
  apply code_simp
  done

lemma scan_after_1: "dictScan (snd (dictExpand sixteen_buckets 4)) 1 = Some (Inr (3, []))"
  unfolding sixteen_resized
  apply (simp add: sixteen_buckets_def scan_defs)
  apply code_simp
  done

lemma scan_after_3: "dictScan (snd (dictExpand sixteen_buckets 4)) 3 = Some (Inr (0, []))"
  unfolding sixteen_resized
  apply (simp add: sixteen_buckets_def scan_defs)
  apply code_simp
  done


lemma scan_reaches_entry: "dictScan sixteen_buckets 6 = Some (Inr (14, [1]))"
  apply (simp add: sixteen_buckets_def scan_defs)
  apply code_simp
  done

lemma sixteen_find:
  "map_option (map_sum id fst) (dictFind sixteen_buckets 6) = Some (Inr (Some 1))"
  "map_option (map_sum id fst) (dictFind (snd (dictExpand sixteen_buckets 4)) 6) = Some (Inr (Some 1))"
  unfolding sixteen_resized
  by (simp_all add: sixteen_buckets_def dictFind_def dictRehashStep_def dictRehash_def
      dictRehash_loop.simps dictRehash_move.simps chain_lookup.simps eval_defs)

text \<open>
  Claim C5 fails on the code. The dict has sixteen buckets and one key, 6, in bucket 6.
  A scan from cursor 0 returns the cursors 8, 4, 12, 2 and 10 and visits nothing.
  Then the table is shrunk: \<^verbatim>\<open>dictExpand(d, 4)\<close>, which is what \<^verbatim>\<open>dictResize\<close>
  calls here, starts a rehash into four buckets. The
  scan goes on with the cursors 10, 1 and 3, returns 0 and has visited nothing: at
  cursor 10 the loop over the larger table reads buckets 10 and 14 only, never bucket 6.
  The key is in the dict the whole time (\<^verbatim>\<open>dictFind\<close> finds it before and after the
  resize), and the scan of bucket 6 does report it.
\<close>

theorem dictScan_misses_entry:
  "dictScan sixteen_buckets 0 = Some (Inr (8, [])) \<and>
   dictScan sixteen_buckets 8 = Some (Inr (4, [])) \<and>
   dictScan sixteen_buckets 4 = Some (Inr (12, [])) \<and>
   dictScan sixteen_buckets 12 = Some (Inr (2, [])) \<and>
   dictScan sixteen_buckets 2 = Some (Inr (10, [])) \<and>
   fst (dictExpand sixteen_buckets 4) = DICT_OK \<and>
   ht_size (d_ht1 (snd (dictExpand sixteen_buckets 4))) = 4 \<and>
   dictScan (snd (dictExpand sixteen_buckets 4)) 10 = Some (Inr (1, [])) \<and>
   dictScan (snd (dictExpand sixteen_buckets 4)) 1 = Some (Inr (3, [])) \<and>
   dictScan (snd (dictExpand sixteen_buckets 4)) 3 = Some (Inr (0, [])) \<and>
   map_option (map_sum id fst) (dictFind sixteen_buckets 6) = Some (Inr (Some 1)) \<and>
   map_option (map_sum id fst) (dictFind (snd (dictExpand sixteen_buckets 4)) 6) = Some (Inr (Some 1)) \<and>
   dictScan sixteen_buckets 6 = Some (Inr (14, [1]))"
  using scan_before_0 scan_before_8 scan_before_4 scan_before_12 scan_before_2
    scan_after_10 scan_after_1 scan_after_3 sixteen_find scan_reaches_entry
  by (simp add: sixteen_resized)

section \<open>The next power of two\<close>

lemma smear_step:
  fixes s x :: ulong
  assumes "\<And>n. bit s n \<longleftrightarrow> (\<exists>i<m. bit x (n + i))"
  shows "bit (s OR drop_bit m s) n \<longleftrightarrow> (\<exists>i<2 * m. bit x (n + i))"
proof
  assume "bit (s OR drop_bit m s) n"
  then consider "bit s n" | "bit s (m + n)" by (auto simp: bit_or_iff bit_drop_bit_eq)
  then show "\<exists>i<2 * m. bit x (n + i)"
  proof cases
    case 1 then obtain i where "i < m" "bit x (n + i)" using assms by blast
    then show ?thesis by (intro exI[of _ i]) simp
  next
    case 2 then obtain i where "i < m" "bit x (m + n + i)" using assms by blast
    then show ?thesis by (intro exI[of _ "m + i"]) (simp add: ac_simps)
  qed
next
  assume "\<exists>i<2 * m. bit x (n + i)"
  then obtain i where i: "i < 2 * m" "bit x (n + i)" by blast
  show "bit (s OR drop_bit m s) n"
  proof (cases "i < m")
    case True with i assms show ?thesis by (auto simp: bit_or_iff)
  next
    case False
    then have "i - m < m" "bit x (m + n + (i - m))" using i by (auto simp: ac_simps)
    then have "bit s (m + n)" using assms by blast
    then show ?thesis by (simp add: bit_or_iff bit_drop_bit_eq)
  qed
qed

lemma smear_bit: "bit (smear x) n \<longleftrightarrow> (\<exists>i<32. bit x (n + i))"
proof -
  define s1 where "s1 = x OR drop_bit 1 x"
  define s2 where "s2 = s1 OR drop_bit 2 s1"
  define s3 where "s3 = s2 OR drop_bit 4 s2"
  define s4 where "s4 = s3 OR drop_bit 8 s3"
  define s5 where "s5 = s4 OR drop_bit 16 s4"
  have b0: "\<And>n. bit x n \<longleftrightarrow> (\<exists>i<1. bit x (n + i))" by simp
  have b1: "\<And>n. bit s1 n \<longleftrightarrow> (\<exists>i<2. bit x (n + i))"
    unfolding s1_def using smear_step[of x 1 x, OF b0] by simp
  have b2: "\<And>n. bit s2 n \<longleftrightarrow> (\<exists>i<4. bit x (n + i))"
    unfolding s2_def using smear_step[of s1 2 x, OF b1] by simp
  have b3: "\<And>n. bit s3 n \<longleftrightarrow> (\<exists>i<8. bit x (n + i))"
    unfolding s3_def using smear_step[of s2 4 x, OF b2] by simp
  have b4: "\<And>n. bit s4 n \<longleftrightarrow> (\<exists>i<16. bit x (n + i))"
    unfolding s4_def using smear_step[of s3 8 x, OF b3] by simp
  have b5: "\<And>n. bit s5 n \<longleftrightarrow> (\<exists>i<32. bit x (n + i))"
    unfolding s5_def using smear_step[of s4 16 x, OF b4] by simp
  have "smear x = s5" by (simp add: smear_def Let_def s1_def s2_def s3_def s4_def s5_def)
  then show ?thesis using b5 by simp
qed


lemma bit_imp_ge_pow:
  fixes x :: ulong
  assumes "bit x m" shows "2 ^ m \<le> unat x"
proof (rule ccontr)
  assume "\<not> 2 ^ m \<le> unat x"
  then have "unat x < 2 ^ m" by simp
  then have "take_bit m (unat x) = unat x" by (simp add: take_bit_nat_eq_self)
  then have "take_bit m x = x" by (metis unsigned_take_bit_eq word_unat_eq_iff)
  then have "bit x m = bit (take_bit m x) m" by simp
  then show False using assms by (simp add: bit_take_bit_iff)
qed

lemma lt_pow_imp_not_bit:
  fixes x :: ulong
  assumes "unat x < 2 ^ k" "k \<le> m" shows "\<not> bit x m"
proof
  assume "bit x m"
  then have "2 ^ m \<le> unat x" by (rule bit_imp_ge_pow)
  moreover have "(2::nat) ^ k \<le> 2 ^ m" using assms(2) by simp
  ultimately show False using assms(1) by simp
qed

lemma smear_is_mask:
  fixes x :: ulong
  assumes x0: "x \<noteq> 0" and x32: "unat x < 2 ^ 32"
  shows "\<exists>k. 0 < k \<and> k \<le> 32 \<and> smear x = mask k \<and> 2 ^ (k - 1) \<le> unat x \<and> unat x < 2 ^ k"
proof -
  let ?B = "{m. bit x m}"
  have fin: "finite ?B"
  proof (rule finite_subset)
    show "?B \<subseteq> {..<32}" using lt_pow_imp_not_bit[OF x32] by (auto simp: not_le[symmetric])
  qed simp
  have ne: "?B \<noteq> {}" using x0 by (auto simp: bit_eq_iff)
  define hb where "hb = Max ?B"
  have hb_bit: "bit x hb" using Max_in[OF fin ne] by (simp add: hb_def)
  have hb_max: "\<And>m. bit x m \<Longrightarrow> m \<le> hb" using Max_ge[OF fin] by (simp add: hb_def)
  have hb32: "hb < 32"
  proof (rule ccontr)
    assume "\<not> hb < 32"
    then have "32 \<le> hb" by simp
    from lt_pow_imp_not_bit[OF x32 this] hb_bit show False by simp
  qed
  have bits: "bit (smear x) n \<longleftrightarrow> n \<le> hb" for n
  proof
    assume "bit (smear x) n"
    then obtain i where "bit x (n + i)" by (auto simp: smear_bit)
    then have "n + i \<le> hb" by (rule hb_max)
    then show "n \<le> hb" by simp
  next
    assume le: "n \<le> hb"
    have "hb - n < 32" using hb32 by simp
    moreover have "bit x (n + (hb - n))" using le hb_bit by simp
    ultimately show "bit (smear x) n" unfolding smear_bit by blast
  qed
  have eq: "smear x = mask (Suc hb)"
    by (rule bit_word_eqI) (use bits hb32 in \<open>auto simp: bit_mask_iff less_Suc_eq_le\<close>)
  have lo: "2 ^ hb \<le> unat x" using hb_bit by (rule bit_imp_ge_pow)
  have hi: "unat x < 2 ^ Suc hb"
  proof -
    have "take_bit (Suc hb) x = x"
      by (rule bit_word_eqI) (use hb_max in \<open>auto simp: bit_take_bit_iff less_Suc_eq_le\<close>)
    then have "unat x = take_bit (Suc hb) (unat x)" by (metis unsigned_take_bit_eq)
    also have "\<dots> < 2 ^ Suc hb" by (rule take_bit_nat_less_exp)
    finally show ?thesis .
  qed
  show ?thesis
    by (rule exI[of _ "Suc hb"]) (use eq lo hi hb32 in auto)
qed


lemma dictNextPower_smear:
  assumes "4 \<le> n" "n \<le> 0xFFFFFFFF"
  shows "dictNextPower n = smear (n - 1) + 1"
  using assms by (simp add: dictNextPower_def smear_def Let_def DICT_HT_INITIAL_SIZE_def UINT32_MAX_def not_less[symmetric])

lemma dictNextPower_mid:
  assumes lo: "4 \<le> n" and hi: "n \<le> 0xFFFFFFFF"
  shows "\<exists>k. unat (dictNextPower n) = 2 ^ k \<and> unat n \<le> 2 ^ k \<and> 2 ^ k < 2 * unat n"
proof -
  have n4: "4 \<le> unat n" using lo by (simp add: word_le_nat_alt)
  have nhi: "unat n \<le> 4294967295" using hi by (simp add: word_le_nat_alt)
  have un: "unat (n - 1) = unat n - 1" using n4 by (simp add: unat_minus_one unat_gt_0[symmetric]) 
  have "unat (n - 1) \<noteq> 0" using un n4 by simp
  then have x0: "n - 1 \<noteq> 0" by auto
  have x32: "unat (n - 1) < 2 ^ 32" using un nhi by simp
  from smear_is_mask[OF x0 x32] obtain k where k: "0 < k" "k \<le> 32" "smear (n - 1) = mask k"
    "2 ^ (k - 1) \<le> unat (n - 1)" "unat (n - 1) < 2 ^ k" by blast
  have "dictNextPower n = 2 ^ k" using dictNextPower_smear[OF lo hi] k(3) by (simp add: inc_mask_eq_exp)
  moreover have "unat (2 ^ k :: ulong) = 2 ^ k"
  proof -
    have "(2::nat) ^ k < 2 ^ 64" using k(2) by (intro power_strict_increasing) simp_all
    moreover have "unat (2 ^ k :: ulong) = unat (word_of_nat (2 ^ k) :: ulong)" by simp
    ultimately show ?thesis by (simp only: unat_of_nat) simp
  qed
  ultimately have a: "unat (dictNextPower n) = 2 ^ k" by simp
  have b: "unat n \<le> 2 ^ k" using k(5) un by simp
  have "(2::nat) ^ k = 2 * 2 ^ (k - 1)" using k(1) by (cases k) simp_all
  then have c: "2 ^ k < 2 * unat n" using k(4) un n4 by simp
  show ?thesis using a b c by blast
qed


section \<open>C6: when an insertion expands the table\<close>

subsection \<open>The growth check\<close>






subsection \<open>The insertion after the check\<close>





subsection \<open>Sample dicts\<close>

lemma crowded_inv:
  "dict_inv crowded [ [20, 16, 12, 8, 4], [21, 17, 13, 9, 5, 1], [22, 18, 14, 10, 6, 2],
      [23, 19, 15, 11, 7, 3] ] []"
  unfolding crowded_def dict_inv_def
  apply (intro conjI)
       apply (simp add: table_ok_def All_less_Suc in_bucket_def bucket_index_def identityType_def)
      apply (simp add: table_ok_def dictReset_def)
     apply simp
    apply (simp add: keys_unique_def key_matches_def compare_keys_def identityType_def)
   apply simp
  apply simp
  done







section \<open>C7: the size of an expanded table\<close>

text \<open>
  What \<^verbatim>\<open>dictExpand\<close> does for every dict and target size. It returns \<^verbatim>\<open>DICT_ERR\<close>
  exactly when the dict is rehashing or the target size is below \<^verbatim>\<open>ht[0].used\<close>.
  Otherwise it returns \<^verbatim>\<open>DICT_OK\<close> and the table it allocated (table 0 when that
  was unallocated, else table 1) has \<^verbatim>\<open>_dictNextPower(size)\<close> empty buckets. That
  number is 4 for a target below 4 and the least power of two that is at least the
  target for a target between 4 and \<^verbatim>\<open>UINT32_MAX\<close>; for a larger target it is
  \<^verbatim>\<open>UINT32_MAX\<close> itself.
\<close>

lemma dictExpand_sizes:
  "(fst (dictExpand s n) = DICT_ERR \<longleftrightarrow> dictIsRehashing s \<or> n < ht_used (d_ht0 s)) \<and>
   (fst (dictExpand s n) \<noteq> DICT_ERR \<longrightarrow>
      fst (dictExpand s n) = DICT_OK \<and>
      ht_size (if ht_table (d_ht0 s) = None then d_ht0 (snd (dictExpand s n)) else d_ht1 (snd (dictExpand s n)))
        = dictNextPower n \<and>
      ht_table (if ht_table (d_ht0 s) = None then d_ht0 (snd (dictExpand s n)) else d_ht1 (snd (dictExpand s n)))
        = Some (alloc_addr s (alloc_count s), replicate (unat (dictNextPower n)) None)) \<and>
   (n < 4 \<longrightarrow> dictNextPower n = 4) \<and>
   (4 \<le> n \<and> n \<le> 0xFFFFFFFF \<longrightarrow>
      (\<exists>k. unat (dictNextPower n) = 2 ^ k \<and> unat n \<le> 2 ^ k \<and> 2 ^ k < 2 * unat n)) \<and>
   (0xFFFFFFFF < n \<longrightarrow> dictNextPower n = 0xFFFFFFFF)"
proof -
  have a: "fst (dictExpand s n) = DICT_ERR \<longleftrightarrow> dictIsRehashing s \<or> n < ht_used (d_ht0 s)"
    using DICT_codes by (auto simp: dictExpand_def Let_def zmalloc_def split: prod.splits)
  have b: "fst (dictExpand s n) \<noteq> DICT_ERR \<longrightarrow>
      fst (dictExpand s n) = DICT_OK \<and>
      ht_size (if ht_table (d_ht0 s) = None then d_ht0 (snd (dictExpand s n)) else d_ht1 (snd (dictExpand s n)))
        = dictNextPower n \<and>
      ht_table (if ht_table (d_ht0 s) = None then d_ht0 (snd (dictExpand s n)) else d_ht1 (snd (dictExpand s n)))
        = Some (alloc_addr s (alloc_count s), replicate (unat (dictNextPower n)) None)"
    by (auto simp: dictExpand_def Let_def zmalloc_def split: prod.splits)
  have c: "n < 4 \<longrightarrow> dictNextPower n = 4"
    by (simp add: dictNextPower_def DICT_HT_INITIAL_SIZE_def)
  have d: "0xFFFFFFFF < n \<longrightarrow> dictNextPower n = 0xFFFFFFFF"
  proof
    assume h: "0xFFFFFFFF < n"
    then have "\<not> n < 4" by (simp add: word_less_nat_alt)
    with h show "dictNextPower n = 0xFFFFFFFF"
      by (simp add: dictNextPower_def DICT_HT_INITIAL_SIZE_def UINT32_MAX_def)
  qed
  show ?thesis using a b c d dictNextPower_mid[of n] by blast
qed

text \<open>The lemma at a fresh dict and the target size 5.\<close>

lemma dictExpand_sizes_at_5:
  "fst (dictExpand fresh_dict 5) \<noteq> DICT_ERR \<and>
   ht_size (d_ht0 (snd (dictExpand fresh_dict 5))) = dictNextPower 5 \<and>
   (4::ulong) \<le> 5 \<and> (5::ulong) \<le> 0xFFFFFFFF \<and>
   (\<exists>k. unat (dictNextPower 5) = 2 ^ k \<and> (5::nat) \<le> 2 ^ k \<and> (2::nat) ^ k < 10)"
proof -
  have h1: "fst (dictExpand fresh_dict 5) \<noteq> DICT_ERR"
    by (simp add: dictExpand_def fresh_dict_def dictCreate_def dictReset_def dictIsRehashing_def
        zmalloc_def Let_def DICT_codes)
  have h2: "(4::ulong) \<le> 5 \<and> (5::ulong) \<le> 0xFFFFFFFF" by simp
  have h3: "ht_table (d_ht0 fresh_dict) = None"
    by (simp add: fresh_dict_def dictCreate_def dictReset_def)
  from dictExpand_sizes[of fresh_dict 5] h1 h2 h3 show ?thesis by simp
qed

text \<open>
  Claim C7 fails on the code. From a fresh dict, \<^verbatim>\<open>dictExpand(d, 4294967296)\<close> succeeds
  and allocates a table of 4294967295 buckets: not a power of two, and smaller than
  the target. Its \<^verbatim>\<open>sizemask\<close>, \<^verbatim>\<open>size - 1\<close>, is \<^verbatim>\<open>0xFFFFFFFE\<close>, which no odd
  bucket index passes. The smaller target 4294967295 gets the larger table, of
  4294967296 buckets. The comment of \<^verbatim>\<open>_dictNextPower\<close> says that it rounds up to a
  power of two, and the header of \<^verbatim>\<open>dictScan\<close> that tables always have such a size.
\<close>

theorem dictExpand_not_power_of_two:
  "fst (dictExpand fresh_dict 0x100000000) = DICT_OK \<and>
   ht_size (d_ht0 (snd (dictExpand fresh_dict 0x100000000))) = 0xFFFFFFFF \<and>
   \<not> is_power_of_two (ht_size (d_ht0 (snd (dictExpand fresh_dict 0x100000000)))) \<and>
   ht_size (d_ht0 (snd (dictExpand fresh_dict 0x100000000))) < 0x100000000 \<and>
   ht_sizemask (d_ht0 (snd (dictExpand fresh_dict 0x100000000))) = 0xFFFFFFFE \<and>
   fst (dictExpand fresh_dict 0xFFFFFFFF) = DICT_OK \<and>
   ht_size (d_ht0 (snd (dictExpand fresh_dict 0xFFFFFFFF))) = 0x100000000"
  by (simp add: dictExpand_def fresh_dict_def dictCreate_def dictReset_def dictIsRehashing_def
      dictNextPower_def DICT_HT_INITIAL_SIZE_def UINT32_MAX_def zmalloc_def Let_def is_power_of_two_def upt_rec)


section \<open>C8: the fingerprint of an unsafe iterator\<close>














section \<open>C9: the automatic rehash step and live iterators\<close>

lemma dictRehash_not_rehashing: "\<not> dictIsRehashing s \<Longrightarrow> dictRehash s n = ret (Some 0, s)"
  by (simp add: dictRehash_def)

lemma dictRehashStep_iterators: "d_iterators s \<noteq> 0 \<Longrightarrow> dictRehashStep s = ret s"
  by (simp add: dictRehashStep_def)

lemma dictRehashStep_changes:
  assumes "dictRehashStep s = Some (Inr s')" "s' \<noteq> s"
  shows "d_iterators s = 0 \<and> dictIsRehashing s"
proof -
  have "d_iterators s = 0" using assms by (auto simp: dictRehashStep_def split: if_splits)
  moreover have "dictIsRehashing s"
  proof (rule ccontr)
    assume "\<not> dictIsRehashing s"
    then have "dictRehashStep s = ret s"
      by (simp add: dictRehashStep_def dictRehash_not_rehashing)
    with assms show False by simp
  qed
  ultimately show ?thesis by simp
qed

lemma dictFind_iterators:
  assumes "d_iterators s \<noteq> 0" "dictFind s k = Some (Inr (e, s'))"
  shows "s' = s"
  using assms
  by (auto simp: dictFind_def dictRehashStep_iterators Let_def bnd_eq_Some_Inr
      split: if_splits option.splits)

lemma ht_upd_rehashidx [simp]: "d_rehashidx (ht_upd t h s) = d_rehashidx s"
  by (simp add: ht_upd_def)

lemma dictFreeVal_rehashidx [simp]: "d_rehashidx (dictFreeVal s e) = d_rehashidx s"
  by (simp add: dictFreeVal_def)

lemma dictFreeKey_rehashidx [simp]: "d_rehashidx (dictFreeKey s e) = d_rehashidx s"
  by (simp add: dictFreeKey_def)

lemma dictGenericDelete_table_rehashidx:
  assumes "dictGenericDelete_table s k h nf t = Some (Inr (Some s'))"
  shows "d_rehashidx s' = d_rehashidx s"
  using assms
  unfolding dictGenericDelete_table_def Let_def
  by (auto elim!: bndE simp: fail_def
      split: sum.split_asm option.split_asm prod.split_asm if_split_asm)

lemma dictGenericDelete_iterators:
  assumes "d_iterators s \<noteq> 0" "dictGenericDelete s k nf = Some (Inr (r, s'))"
  shows "d_rehashidx s' = d_rehashidx s"
  using assms
  by (auto simp: dictGenericDelete_def dictRehashStep_iterators Let_def bnd_eq_Some_Inr
      dest: dictGenericDelete_table_rehashidx split: if_splits option.splits)

lemma dictKeyIndex_rehashing:
  assumes "dictIsRehashing s" "dictKeyIndex s k = Some (Inr (i, s'))"
  shows "s' = s"
  using assms
  by (auto simp: dictKeyIndex_def dictExpandIfNeeded_def Let_def bnd_eq_Some_Inr
      split: if_splits option.splits)

lemma dictAddRaw_iterators:
  assumes "d_iterators s \<noteq> 0" "dictIsRehashing s" "dictAddRaw s k = Some (Inr (e, s'))"
  shows "d_rehashidx s' = d_rehashidx s"
proof -
  from assms obtain i s2 where k: "dictKeyIndex s k = Some (Inr (i, s2))"
    by (auto simp: dictAddRaw_def dictRehashStep_iterators bnd_eq_Some_Inr)
  then have "s2 = s" using assms(2) by (rule dictKeyIndex_rehashing[rotated])
  with assms k show ?thesis
    by (auto simp: dictAddRaw_def dictRehashStep_iterators bnd_eq_Some_Inr zmalloc_def Let_def
        split: if_splits sum.splits option.splits)
qed

text \<open>
  Claim C9. With a nonzero iterator count \<^verbatim>\<open>_dictRehashStep\<close> returns with the whole
  state, hence both tables and the rehash cursor, unchanged; a call of it changes the
  state only when the count is zero and the dict is rehashing. So with a nonzero count
  \<^verbatim>\<open>dictFind\<close> leaves the state as it was, and \<^verbatim>\<open>dictGenericDelete\<close> and (on a
  rehashing dict) \<^verbatim>\<open>dictAddRaw\<close> leave the rehash cursor where it was.
\<close>

theorem rehash_step_needs_no_iterators:
  "(d_iterators s \<noteq> 0 \<longrightarrow> dictRehashStep s = Some (Inr s)) \<and>
   (dictRehashStep s = Some (Inr s') \<and> s' \<noteq> s \<longrightarrow> d_iterators s = 0 \<and> dictIsRehashing s) \<and>
   (d_iterators s \<noteq> 0 \<and> dictFind s k = Some (Inr (e, s')) \<longrightarrow> s' = s) \<and>
   (d_iterators s \<noteq> 0 \<and> dictGenericDelete s k nofree = Some (Inr (r, s'))
      \<longrightarrow> d_rehashidx s' = d_rehashidx s) \<and>
   (d_iterators s \<noteq> 0 \<and> dictIsRehashing s \<and> dictAddRaw s k = Some (Inr (e, s'))
      \<longrightarrow> d_rehashidx s' = d_rehashidx s)"
  using dictRehashStep_iterators[of s] dictRehashStep_changes[of s s'] dictFind_iterators[of s k e s']
    dictGenericDelete_iterators[of s k nofree r s'] dictAddRaw_iterators[of s k e s']
  by (simp add: ret_def)

lemma step_eval:
  "map_option (map_sum id d_rehashidx) (dictRehashStep three_keys_rehashing) = Some (Inr 2)"
  unfolding three_keys_rehashing_eq
  by (simp add: dictRehashStep_def dictRehash_def dictRehash_loop.simps dictRehash_move.simps eval_defs)

lemma find_eval:
  "map_option (map_sum id fst) (dictFind (three_keys_rehashing\<lparr>d_iterators := 1\<rparr>) 5) = Some (Inr (Some 2))"
  unfolding three_keys_rehashing_eq
  by (simp add: dictFind_def dictRehashStep_def chain_lookup.simps eval_defs)


text \<open>
  The theorem of C9 used on the dict at the start of a rehash: with one live iterator
  the step and a lookup leave it unchanged, with none the step moves the cursor.
\<close>

theorem rehash_step_needs_no_iterators_witness:
  "d_iterators (three_keys_rehashing\<lparr>d_iterators := 1\<rparr>) \<noteq> 0 \<and>
   dictRehashStep (three_keys_rehashing\<lparr>d_iterators := 1\<rparr>)
     = Some (Inr (three_keys_rehashing\<lparr>d_iterators := 1\<rparr>)) \<and>
   (\<exists>e. dictFind (three_keys_rehashing\<lparr>d_iterators := 1\<rparr>) 5
          = Some (Inr (e, three_keys_rehashing\<lparr>d_iterators := 1\<rparr>))) \<and>
   (\<exists>s'. dictRehashStep three_keys_rehashing = Some (Inr s') \<and> s' \<noteq> three_keys_rehashing) \<and>
   d_iterators three_keys_rehashing = 0 \<and> dictIsRehashing three_keys_rehashing"
proof -
  let ?w = "three_keys_rehashing\<lparr>d_iterators := 1\<rparr>"
  have h1: "d_iterators ?w \<noteq> 0" by simp
  from find_eval obtain x where x: "dictFind ?w 5 = Some (Inr x)"
    by (rule map_option_sum_SomeE)
  obtain e s1 where x2: "x = (e, s1)" by (cases x)
  have "s1 = ?w"
    using rehash_step_needs_no_iterators[of ?w s1 5 e False 0] h1 x x2 by simp
  then have f: "\<exists>e. dictFind ?w 5 = Some (Inr (e, ?w))" using x x2 by blast
  from step_eval obtain s2 where s2: "dictRehashStep three_keys_rehashing = Some (Inr s2)"
    "d_rehashidx s2 = 2" by (rule map_option_sum_SomeE)
  have "d_rehashidx three_keys_rehashing = 0" unfolding three_keys_rehashing_eq by simp
  then have ne: "s2 \<noteq> three_keys_rehashing" using s2(2) by auto
  from rehash_step_needs_no_iterators[of three_keys_rehashing s2 5 None False 0] s2(1) ne
  have z: "d_iterators three_keys_rehashing = 0 \<and> dictIsRehashing three_keys_rehashing" by blast
  from rehash_step_needs_no_iterators[of ?w ?w 5 None False 0] h1
  have st: "dictRehashStep ?w = Some (Inr ?w)" by blast
  show ?thesis using h1 st f s2(1) ne z by blast
qed


section \<open>C10: releasing an iterator that was never advanced\<close>

text \<open>
  Claim C10. \<^verbatim>\<open>dictReleaseIterator\<close> on an iterator in its initial state (table 0,
  index -1) returns with the state unchanged: no fingerprint check and no decrement of
  the iterator count. This holds for whatever dict state \<open>s\<close> the release runs in, so
  in particular for the iterators made by \<^verbatim>\<open>dictGetIterator\<close> and
  \<^verbatim>\<open>dictGetSafeIterator\<close> on an earlier state \<open>s0\<close>, whatever happened in between.
\<close>

theorem release_unadvanced:
  "(it_index iter = -1 \<and> it_table iter = 0 \<longrightarrow> dictReleaseIterator s iter = Inr s) \<and>
   dictReleaseIterator s (fst (dictGetIterator s0)) = Inr s \<and>
   dictReleaseIterator s (fst (dictGetSafeIterator s0)) = Inr s"
  by (simp add: dictReleaseIterator_def dictGetIterator_def dictGetSafeIterator_def zmalloc_def)

lemma fresh_expand8:
  "fingerprint_integers (snd (dictExpand (snd (dictGetIterator fresh_dict)) 8)) = [102, 8, 0, 0, 0, 0]"
  by (simp add: dictExpand_def dictGetIterator_def zmalloc_def fresh_dict_def dictCreate_def
      dictReset_def dictIsRehashing_def dictNextPower_def DICT_HT_INITIAL_SIZE_def UINT32_MAX_def
      fingerprint_integers_def table_address_def Let_def)

text \<open>
  The theorem of C10 used on a fresh dict: an unsafe iterator is created, the dict is
  expanded to eight buckets, which changes its fingerprint, and the release is clean.
\<close>

theorem release_unadvanced_witness:
  "it_index (fst (dictGetIterator fresh_dict)) = -1 \<and>
   it_table (fst (dictGetIterator fresh_dict)) = 0 \<and>
   dictFingerprint (snd (dictExpand (snd (dictGetIterator fresh_dict)) 8))
     \<noteq> dictFingerprint (snd (dictGetIterator fresh_dict)) \<and>
   dictReleaseIterator (snd (dictExpand (snd (dictGetIterator fresh_dict)) 8))
     (fst (dictGetIterator fresh_dict))
     = Inr (snd (dictExpand (snd (dictGetIterator fresh_dict)) 8))"
proof -
  have i: "it_index (fst (dictGetIterator fresh_dict)) = -1 \<and>
           it_table (fst (dictGetIterator fresh_dict)) = 0"
    by (simp add: dictGetIterator_def zmalloc_def)
  have f0: "fingerprint_integers (snd (dictGetIterator fresh_dict)) = [0, 0, 0, 0, 0, 0]"
    by (simp add: dictGetIterator_def zmalloc_def fresh_dict_def dictCreate_def dictReset_def
        fingerprint_integers_def table_address_def)
  have f: "dictFingerprint (snd (dictExpand (snd (dictGetIterator fresh_dict)) 8))
           \<noteq> dictFingerprint (snd (dictGetIterator fresh_dict))"
    unfolding dictFingerprint_def fresh_expand8 f0
    apply simp
    apply (simp add: fingerprint_mix_def)
    done
  from release_unadvanced[of "fst (dictGetIterator fresh_dict)"
      "snd (dictExpand (snd (dictGetIterator fresh_dict)) 8)" fresh_dict] i f
  show ?thesis by simp
qed

end
